theory Spec2Isabelle
  imports Main "HOL-Library.AList" "HOL-Library.Sublist"
begin

section \<open>Webex Teams room archiver: data model\<close>

text \<open>
  The development embeds \<^verbatim>\<open>webexteamsarchiver.py\<close>. Python exceptions are values of
  the type \<open>error\<close>; a function that can raise returns \<open>error + 'a\<close> (\<open>Inl\<close> the
  exception) or, when it returns nothing, \<open>error option\<close>. The remote services, the
  template engine and the codec are collected in a record \<open>env\<close> of functions; the
  working directory is an explicit file system that every writing function takes and
  returns, also when it raises.
\<close>

datatype error =
    ApiError int
  | RequestException
  | HTTPError int
  | MalformedResponse string
  | FileExistsError
  | FileNotFoundError
  | IsADirectoryError
  | NotADirectoryError
  | ValueError
  | TypeError
  | OtherError string

text \<open>
  A value that the code stores untyped in the field \<open>content_length\<close>: the integer
  \<open>0\<close>, the empty string, or the text of a response header.
\<close>

datatype pyval = PyInt int | PyStr string

text \<open>The named tuple \<^verbatim>\<open>File\<close>.\<close>

record file_info =
  content_disposition :: string
  content_length :: pyval
  content_type :: string
  filename :: string
  deleted :: bool

definition File :: "string \<Rightarrow> pyval \<Rightarrow> string \<Rightarrow> string \<Rightarrow> bool \<Rightarrow> file_info" where
  "File cd cl ct fn del =
     \<lparr>content_disposition = cd, content_length = cl, content_type = ct,
      filename = fn, deleted = del\<rparr>"

text \<open>
  A person as the SDK returns it, and the named tuple \<^verbatim>\<open>UserNotFound\<close> with the
  same four attributes.
\<close>

record person =
  person_id :: string
  emails :: "string list"
  displayName :: string
  avatar :: "string option"
  person_type :: string

datatype who = Person person | UserNotFound string "string list" string "string option"

fun avatar_of :: "who \<Rightarrow> string option" where
  "avatar_of (Person p) = avatar p"
| "avatar_of (UserNotFound i es d a) = a"

record room =
  room_ident :: string
  title :: string
  creatorId :: string

text \<open>
  A message. \<open>created\<close> is the creation time in microseconds since the epoch, the
  resolution of a Python \<^verbatim>\<open>datetime\<close>; \<open>files\<close> is \<^verbatim>\<open>None\<close> or a list of URLs.
\<close>

record message =
  msg_id :: string
  personEmail :: string
  personId :: string
  created :: int
  body_text :: string
  files :: "string list option"

text \<open>The answer to a \<^verbatim>\<open>HEAD\<close> request: the status and the three headers read.\<close>

record head_response =
  status_code :: int
  hdr_content_disposition :: "string option"
  hdr_content_length :: "string option"
  hdr_content_type :: "string option"

text \<open>
  The answer to a streamed \<^verbatim>\<open>GET\<close> request: the status, the bytes that
  \<^verbatim>\<open>r.raw\<close> delivers, and the exception that ends the stream early, if any.
\<close>

record get_response =
  get_status :: int
  raw :: string
  raw_error :: "error option"

section \<open>The file system under the working directory\<close>

datatype node = RegFile string | Directory "(string \<times> node) list"

type_synonym fs = "string \<Rightarrow> node option"

definition isdir :: "fs \<Rightarrow> string \<Rightarrow> bool" where
  "isdir fs name = (case fs name of Some (Directory es) \<Rightarrow> True | _ \<Rightarrow> False)"

text \<open>
  \<^verbatim>\<open>shutil.rmtree(name, ignore_errors=False)\<close> on an existing directory. The
  removal is taken to succeed: permissions and devices are not part of this file
  system.
\<close>

definition rmtree :: "fs \<Rightarrow> string \<Rightarrow> fs" where
  "rmtree fs name = fs(name := None)"

text \<open>\<^verbatim>\<open>os.makedirs(name)\<close>: raises when anything of that name exists.\<close>

definition makedirs :: "fs \<Rightarrow> string \<Rightarrow> error + fs" where
  "makedirs fs name =
     (case fs name of
        None \<Rightarrow> Inr (fs(name \<mapsto> Directory []))
      | Some n \<Rightarrow> Inl FileExistsError)"

text \<open>
  Creating an entry inside the archive folder: \<^verbatim>\<open>os.makedirs(f"{folder}/{sub}")\<close>
  and \<^verbatim>\<open>shutil.copytree(src, f"{folder}/{sub}")\<close>, which both raise when the
  entry exists.
\<close>

definition add_entry :: "fs \<Rightarrow> string \<Rightarrow> string \<Rightarrow> node \<Rightarrow> error + fs" where
  "add_entry fs folder sub n =
     (case fs folder of
        None \<Rightarrow> Inl FileNotFoundError
      | Some (RegFile c) \<Rightarrow> Inl NotADirectoryError
      | Some (Directory es) \<Rightarrow>
          (case map_of es sub of
             Some old \<Rightarrow> Inl FileExistsError
           | None \<Rightarrow> Inr (fs(folder \<mapsto> Directory (es @ [(sub, n)])))))"

text \<open>
  \<^verbatim>\<open>open(path, "w")\<close> followed by the write, for a file directly in a directory
  given by its entries. The last path component comes from \<^verbatim>\<open>os.path.join\<close>: an
  empty one leaves a path that ends in the separator and names the directory itself,
  so that \<open>open\<close> raises \<^verbatim>\<open>IsADirectoryError\<close>, as it does for \<open>.\<close> and \<open>..\<close>.
  A component with a separator names a subdirectory that no step of the archiver
  creates; the model raises there and does not follow paths that leave the folder.
\<close>

definition write_entry :: "(string \<times> node) list \<Rightarrow> string \<Rightarrow> string \<Rightarrow> error + (string \<times> node) list" where
  "write_entry es name content =
     (if name = [] \<or> name = ''.'' \<or> name = ''..'' then Inl IsADirectoryError
      else if CHR ''/'' \<in> set name then Inl FileNotFoundError
      else (case map_of es name of
              Some (Directory ds) \<Rightarrow> Inl IsADirectoryError
            | _ \<Rightarrow> Inr (AList.update name (RegFile content) es)))"

text \<open>Writing \<^verbatim>\<open>cwd/folder/name\<close>.\<close>

definition write_file :: "fs \<Rightarrow> string \<Rightarrow> string \<Rightarrow> string \<Rightarrow> error + fs" where
  "write_file fs folder name content =
     (case fs folder of
        None \<Rightarrow> Inl FileNotFoundError
      | Some (RegFile c) \<Rightarrow> Inl NotADirectoryError
      | Some (Directory es) \<Rightarrow>
          (case write_entry es name content of
             Inl e \<Rightarrow> Inl e
           | Inr es' \<Rightarrow> Inr (fs(folder \<mapsto> Directory es'))))"

text \<open>Writing \<^verbatim>\<open>cwd/folder/sub/name\<close>.\<close>

definition write_sub_file :: "fs \<Rightarrow> string \<Rightarrow> string \<Rightarrow> string \<Rightarrow> string \<Rightarrow> error + fs" where
  "write_sub_file fs folder sub name content =
     (case fs folder of
        None \<Rightarrow> Inl FileNotFoundError
      | Some (RegFile c) \<Rightarrow> Inl NotADirectoryError
      | Some (Directory es) \<Rightarrow>
          (case map_of es sub of
             None \<Rightarrow> Inl FileNotFoundError
           | Some (RegFile c) \<Rightarrow> Inl NotADirectoryError
           | Some (Directory ds) \<Rightarrow>
               (case write_entry ds name content of
                  Inl e \<Rightarrow> Inl e
                | Inr ds' \<Rightarrow>
                    Inr (fs(folder \<mapsto> Directory (AList.update sub (Directory ds') es))))))"

section \<open>The collaborators\<close>

text \<open>
  What the archiver calls and does not define: the Webex SDK, \<^verbatim>\<open>requests\<close>, the
  Jinja templates, \<^verbatim>\<open>json.dump\<close>, \<^verbatim>\<open>tarfile\<close>, the static assets of the package and
  \<^verbatim>\<open>sanitize_name\<close> of the module \<^verbatim>\<open>jinja_env\<close>. \<open>messages_list\<close> gives the
  messages that the lazy SDK container yields and the exception that interrupts the
  iteration, if any. \<open>json_items\<close> and \<open>json_space\<close> give the text that
  \<^verbatim>\<open>json.dump\<close> writes and the exception that interrupts it, if any. \<open>tar_gz\<close>
  gives the bytes written to the archive file for what is at the folder's path, and
  the exception that interrupts \<^verbatim>\<open>tar.add\<close>, if any. \<open>completion_rank\<close> is the order in
  which the download tasks of a pool finish.
\<close>

record env =
  sanitize_name :: "string \<Rightarrow> string"
  rooms_get :: "string \<Rightarrow> error + room"
  people_get :: "string \<Rightarrow> error + person"
  people_me :: "error + person"
  messages_list :: "string \<Rightarrow> bool \<Rightarrow> message list \<times> error option"
  http_head :: "string \<Rightarrow> error + head_response"
  http_get :: "string \<Rightarrow> error + get_response"
  render_html :: "room \<Rightarrow> who \<Rightarrow> message list \<Rightarrow> (string \<times> file_info) list \<Rightarrow> (string \<times> who) list
                   \<Rightarrow> bool \<Rightarrow> int list \<Rightarrow> string \<Rightarrow> error + string"
  render_text :: "room \<Rightarrow> who \<Rightarrow> message list \<Rightarrow> (string \<times> file_info) list \<Rightarrow> string \<Rightarrow> error + string"
  json_items :: "message list \<Rightarrow> string \<times> error option"
  json_space :: "room \<Rightarrow> who \<Rightarrow> string \<times> error option"
  static_asset :: "string \<Rightarrow> node option"
  tar_gz :: "string \<Rightarrow> node option \<Rightarrow> string \<times> error option"
  completion_rank :: "string \<Rightarrow> nat"

section \<open>file\_details\<close>

text \<open>
  \<^verbatim>\<open>re.search(r"filename=\"(.+?)\"", s, re.I)\<close>. The pattern is a literal, matched
  without regard to case, then a lazy group of one or more characters other than the
  newline, then a quote. Header values are Latin-1 text, where only the two ASCII
  cases of a letter match it. \<open>filename_pat\<close> lists the admissible characters at
  each position of the literal.
\<close>

definition filename_pat :: "(char \<times> char) list" where
  "filename_pat =
     [(CHR ''f'', CHR ''F''), (CHR ''i'', CHR ''I''), (CHR ''l'', CHR ''L''),
      (CHR ''e'', CHR ''E''), (CHR ''n'', CHR ''N''), (CHR ''a'', CHR ''A''),
      (CHR ''m'', CHR ''M''), (CHR ''e'', CHR ''E''), (CHR ''='', CHR ''=''),
      (CHR 0x22, CHR 0x22)]"

fun match_literal :: "(char \<times> char) list \<Rightarrow> string \<Rightarrow> string option" where
  "match_literal [] s = Some s"
| "match_literal (p # ps) [] = None"
| "match_literal (p # ps) (c # cs) =
     (if c = fst p \<or> c = snd p then match_literal ps cs else None)"

text \<open>The rest of the lazy group: up to the first quote, with no newline before it.\<close>

fun until_quote :: "string \<Rightarrow> string option" where
  "until_quote [] = None"
| "until_quote (c # cs) =
     (if c = CHR 0x22 then Some []
      else if c = CHR 0x0A then None
      else map_option ((#) c) (until_quote cs))"

text \<open>The group \<^verbatim>\<open>(.+?)\<close> and the closing quote: the first character is any but a newline.\<close>

fun lazy_group :: "string \<Rightarrow> string option" where
  "lazy_group [] = None"
| "lazy_group (c # cs) =
     (if c = CHR 0x0A then None else map_option ((#) c) (until_quote cs))"

definition match_here :: "string \<Rightarrow> string option" where
  "match_here s = (case match_literal filename_pat s of None \<Rightarrow> None | Some r \<Rightarrow> lazy_group r)"

text \<open>The search tries every start position from the left; the result is group 1.\<close>

fun filename_search :: "string \<Rightarrow> string option" where
  "filename_search [] = match_here []"
| "filename_search (c # cs) =
     (case match_here (c # cs) of Some g \<Rightarrow> Some g | None \<Rightarrow> filename_search cs)"

text \<open>\<^verbatim>\<open>r.raise_for_status()\<close> raises for the client and server error statuses.\<close>

definition raise_for_status :: "int \<Rightarrow> error option" where
  "raise_for_status st = (if 400 \<le> st \<and> st < 600 then Some (HTTPError st) else None)"

definition header_or :: "string option \<Rightarrow> string \<Rightarrow> string" where
  "header_or h d = (case h of None \<Rightarrow> d | Some v \<Rightarrow> v)"

definition malformed_message :: "string \<Rightarrow> string \<Rightarrow> string" where
  "malformed_message cd url = ''Failed to find filename='' @ [CHR 0x27, CHR 0x27] @ '' in '' @ cd @ '' for url '' @ url"

definition file_details :: "env \<Rightarrow> string \<Rightarrow> error + file_info" where
  "file_details env url =
     (case http_head env url of
        Inl e \<Rightarrow> Inl e
      | Inr r \<Rightarrow>
          if status_code r = 404 then Inr (File [] (PyInt 0) [] [] True)
          else (case raise_for_status (status_code r) of
                  Some e \<Rightarrow> Inl e
                | None \<Rightarrow>
                    (case filename_search (header_or (hdr_content_disposition r) []) of
                       None \<Rightarrow>
                         Inl (MalformedResponse
                               (malformed_message (header_or (hdr_content_disposition r) []) url))
                     | Some fn \<Rightarrow>
                         Inr (File (header_or (hdr_content_disposition r) [])
                                   (case hdr_content_length r of None \<Rightarrow> PyInt 0 | Some v \<Rightarrow> PyStr v)
                                   (header_or (hdr_content_type r) [])
                                   fn False))))"

section \<open>The message pass of \_archive\<close>

text \<open>
  The calls to the remote services that the message pass makes, in order. A person
  lookup is recorded with the sender email it is made for (the key of the cache) and
  the person id that is sent.
\<close>

datatype call = GetRoom string | GetCreator string | GetMe | GetPerson string string | FileDetails string

text \<open>
  The local variables of \<^verbatim>\<open>_archive\<close> that the loop over the messages updates.
  The three dictionaries keep their insertion order.
\<close>

record loop_state =
  people :: "(string \<times> who) list"
  attachments :: "(string \<times> file_info) list"
  avatars :: "(string \<times> file_info) list"
  processed_messages :: "message list"
  repeat_indeces :: "int list"
  previous_person_email :: string
  previous_msg_datetime :: "int option"

definition initial_state :: loop_state where
  "initial_state =
     \<lparr>people = [], attachments = [], avatars = [], processed_messages = [],
      repeat_indeces = [], previous_person_email = [], previous_msg_datetime = None\<rparr>"

text \<open>
  The attribute \<^verbatim>\<open>seconds\<close> of the \<^verbatim>\<open>timedelta\<close> that a difference of two
  datetimes gives. A \<^verbatim>\<open>timedelta\<close> is kept as days, seconds in \<open>[0, 86400)\<close> and
  microseconds in \<open>[0, 10\<^sup>6)\<close>; the argument is the difference in microseconds.
\<close>

definition timedelta_seconds :: "int \<Rightarrow> int" where
  "timedelta_seconds d = (d div 1000000) mod 86400"

text \<open>
  Lines 190 to 197: the message is appended, its index is recorded when it repeats
  the previous sender within the minute, and the two \<^verbatim>\<open>previous\<close> variables move
  on. Subtracting from \<^verbatim>\<open>None\<close> raises \<^verbatim>\<open>TypeError\<close>.
\<close>

definition note_message :: "int \<Rightarrow> message \<Rightarrow> loop_state \<Rightarrow> error + loop_state" where
  "note_message index msg st =
     (let st1 = st\<lparr>processed_messages := processed_messages st @ [msg]\<rparr>;
          move = (\<lambda>s. s\<lparr>previous_person_email := personEmail msg,
                         previous_msg_datetime := Some (created msg)\<rparr>)
      in if index > 0 \<and> personEmail msg = previous_person_email st
         then (case previous_msg_datetime st of
                 None \<Rightarrow> Inl TypeError
               | Some prev \<Rightarrow>
                   if timedelta_seconds (prev - created msg) < 60
                   then Inr (move (st1\<lparr>repeat_indeces := repeat_indeces st @ [index]\<rparr>))
                   else Inr (move st1))
         else Inr (move st1))"

text \<open>Lines 213 to 215: the avatar of a newly resolved person is queued for download.\<close>

definition note_avatar :: "env \<Rightarrow> bool \<Rightarrow> message \<Rightarrow> who \<Rightarrow> loop_state \<Rightarrow> loop_state" where
  "note_avatar env download_avatars msg w st =
     (case avatar_of w of
        None \<Rightarrow> st
      | Some a \<Rightarrow>
          if download_avatars \<and> a \<noteq> []
          then st\<lparr>avatars := AList.update a
                     (File [] (PyStr []) [] (sanitize_name env (personEmail msg)) False) (avatars st)\<rparr>
          else st)"

definition cache_person :: "env \<Rightarrow> bool \<Rightarrow> message \<Rightarrow> who \<Rightarrow> loop_state \<Rightarrow> loop_state" where
  "cache_person env download_avatars msg w st =
     note_avatar env download_avatars msg w
       (st\<lparr>people := AList.update (personEmail msg) w (people st)\<rparr>)"

text \<open>
  Lines 199 to 215: a sender whose email is not yet a key of \<^verbatim>\<open>people\<close> is looked
  up; a 404 \<^verbatim>\<open>ApiError\<close> stores the placeholder, any other exception leaves the loop.
\<close>

definition resolve_person :: "env \<Rightarrow> bool \<Rightarrow> message \<Rightarrow> loop_state \<Rightarrow> call list \<times> (error + loop_state)" where
  "resolve_person env download_avatars msg st =
     (case map_of (people st) (personEmail msg) of
        Some w \<Rightarrow> ([], Inr st)
      | None \<Rightarrow>
          ([GetPerson (personEmail msg) (personId msg)],
           (case people_get env (personId msg) of
              Inr p \<Rightarrow> Inr (cache_person env download_avatars msg (Person p) st)
            | Inl e \<Rightarrow>
                (case e of
                   ApiError code \<Rightarrow>
                     if code = 404
                     then Inr (cache_person env download_avatars msg
                                 (UserNotFound (personId msg) [personEmail msg] ''Person Not Found'' None) st)
                     else Inl e
                 | _ \<Rightarrow> Inl e))))"

text \<open>Lines 218 to 220: every URL of the message is probed and stored under its URL.\<close>

fun probe_files :: "env \<Rightarrow> string list \<Rightarrow> (string \<times> file_info) list
                     \<Rightarrow> call list \<times> (error + (string \<times> file_info) list)" where
  "probe_files env [] att = ([], Inr att)"
| "probe_files env (url # urls) att =
     (case file_details env url of
        Inl e \<Rightarrow> ([FileDetails url], Inl e)
      | Inr file_metadata \<Rightarrow>
          (case probe_files env urls (AList.update url file_metadata att) of
             (tr, r) \<Rightarrow> (FileDetails url # tr, r)))"

text \<open>The body of the loop for one message.\<close>

definition loop_body :: "env \<Rightarrow> bool \<Rightarrow> int \<Rightarrow> message \<Rightarrow> loop_state \<Rightarrow> call list \<times> (error + loop_state)" where
  "loop_body env download_avatars index msg st =
     (case note_message index msg st of
        Inl e \<Rightarrow> ([], Inl e)
      | Inr st1 \<Rightarrow>
          (case resolve_person env download_avatars msg st1 of
             (tr1, Inl e) \<Rightarrow> (tr1, Inl e)
           | (tr1, Inr st2) \<Rightarrow>
               (case files msg of
                  None \<Rightarrow> (tr1, Inr st2)
                | Some urls \<Rightarrow>
                    if urls = [] then (tr1, Inr st2)
                    else (case probe_files env urls (attachments st2) of
                            (tr2, Inl e) \<Rightarrow> (tr1 @ tr2, Inl e)
                          | (tr2, Inr att) \<Rightarrow> (tr1 @ tr2, Inr (st2\<lparr>attachments := att\<rparr>))))))"

text \<open>
  \<^verbatim>\<open>for index, msg in enumerate(self.messages)\<close>. The last argument is the
  exception that ends the iteration of the lazy message container, if any.
\<close>

fun message_loop :: "env \<Rightarrow> bool \<Rightarrow> error option \<Rightarrow> int \<Rightarrow> message list \<Rightarrow> loop_state
                      \<Rightarrow> call list \<times> (error + loop_state)" where
  "message_loop env download_avatars tail index [] st =
     (case tail of None \<Rightarrow> ([], Inr st) | Some e \<Rightarrow> ([], Inl e))"
| "message_loop env download_avatars tail index (msg # msgs) st =
     (case loop_body env download_avatars index msg st of
        (tr, Inl e) \<Rightarrow> (tr, Inl e)
      | (tr, Inr st1) \<Rightarrow>
          (case message_loop env download_avatars tail (index + 1) msgs st1 of
             (tr2, r) \<Rightarrow> (tr @ tr2, r)))"

text \<open>Lines 222 to 224.\<close>

definition reorder :: "bool \<Rightarrow> loop_state \<Rightarrow> int list \<times> message list" where
  "reorder reverse_order st =
     (if reverse_order
      then (map (\<lambda>i. int (length (processed_messages st)) - i) (repeat_indeces st),
            rev (processed_messages st))
      else (repeat_indeces st, processed_messages st))"

section \<open>Reading the calls\<close>

text \<open>The sender emails of the person lookups among the calls, in order.\<close>

fun lookups :: "call list \<Rightarrow> string list" where
  "lookups [] = []"
| "lookups (GetPerson email pid # cs) = email # lookups cs"
| "lookups (c # cs) = lookups cs"

text \<open>The URLs of the calls of \<^verbatim>\<open>file_details\<close>, in order.\<close>

fun probes :: "call list \<Rightarrow> string list" where
  "probes [] = []"
| "probes (FileDetails url # cs) = url # probes cs"
| "probes (c # cs) = probes cs"

text \<open>The URLs in the file list of a message; \<^verbatim>\<open>None\<close> has none.\<close>

definition urls_of :: "message \<Rightarrow> string list" where
  "urls_of msg = (case files msg of None \<Rightarrow> [] | Some urls \<Rightarrow> urls)"

text \<open>
  The test of line 192 at the position \<open>i\<close> of a message list: the index is positive,
  the sender is that of the message before, and the attribute \<^verbatim>\<open>seconds\<close> of the
  difference of the two creation times, previous minus current, is below 60.
\<close>

definition repeats_previous :: "message list \<Rightarrow> nat \<Rightarrow> bool" where
  "repeats_previous msgs i =
     (0 < i \<and> i < length msgs
      \<and> personEmail (msgs ! i) = personEmail (msgs ! (i - 1))
      \<and> timedelta_seconds (created (msgs ! (i - 1)) - created (msgs ! i)) < 60)"

text \<open>The keys of a dictionary.\<close>

definition dict_keys :: "('k \<times> 'v) list \<Rightarrow> 'k set" where
  "dict_keys d = fst ` set d"

section \<open>Writing the outputs\<close>

text \<open>
  The attributes of \<^verbatim>\<open>self\<close> that \<^verbatim>\<open>_gather_room_information\<close> sets. The messages
  are the items of the lazy container and the exception that ends it, if any.
\<close>

record archiver =
  the_room :: room
  archive_folder_name :: string
  room_creator :: who
  messages :: "message list \<times> error option"

text \<open>Statements that write to the file system, run in order up to the first that raises.\<close>

fun run_steps :: "(fs \<Rightarrow> fs \<times> error option) list \<Rightarrow> fs \<Rightarrow> fs \<times> error option" where
  "run_steps [] fs = (fs, None)"
| "run_steps (step # steps) fs =
     (case step fs of
        (fs1, Some e) \<Rightarrow> (fs1, Some e)
      | (fs1, None) \<Rightarrow> run_steps steps fs1)"

definition when_set :: "bool \<Rightarrow> (fs \<Rightarrow> fs \<times> error option) \<Rightarrow> fs \<Rightarrow> fs \<times> error option" where
  "when_set b step fs = (if b then step fs else (fs, None))"

definition written :: "fs \<Rightarrow> error + fs \<Rightarrow> fs \<times> error option" where
  "written fs r = (case r of Inl e \<Rightarrow> (fs, Some e) | Inr fs1 \<Rightarrow> (fs1, None))"

definition create_text_transcript :: "env \<Rightarrow> archiver \<Rightarrow> message list \<Rightarrow> (string \<times> file_info) list
                                       \<Rightarrow> string \<Rightarrow> fs \<Rightarrow> fs \<times> error option" where
  "create_text_transcript env self msgs att timestamp_format fs =
     (case render_text env (the_room self) (room_creator self) msgs att timestamp_format of
        Inl e \<Rightarrow> (fs, Some e)
      | Inr text_transcript \<Rightarrow>
          written fs (write_file fs (archive_folder_name self)
                        (archive_folder_name self @ ''.txt'') text_transcript))"

definition create_html_transcript :: "env \<Rightarrow> archiver \<Rightarrow> message list \<Rightarrow> (string \<times> file_info) list
     \<Rightarrow> (string \<times> who) list \<Rightarrow> bool \<Rightarrow> int list \<Rightarrow> string \<Rightarrow> fs \<Rightarrow> fs \<times> error option" where
  "create_html_transcript env self msgs att ppl download_avatars rep timestamp_format fs =
     (case render_html env (the_room self) (room_creator self) msgs att ppl download_avatars rep
             timestamp_format of
        Inl e \<Rightarrow> (fs, Some e)
      | Inr html \<Rightarrow>
          written fs (write_file fs (archive_folder_name self)
                        (archive_folder_name self @ ''.html'') html))"

text \<open>
  \<^verbatim>\<open>json.dump\<close> writes into the file that is already open: the collaborator gives the
  text written and the exception that interrupts it, if any.
\<close>

definition dump_json :: "string \<Rightarrow> string \<Rightarrow> string \<times> error option \<Rightarrow> fs \<Rightarrow> fs \<times> error option" where
  "dump_json folder name dumped fs =
     (case write_file fs folder name (fst dumped) of
        Inl e \<Rightarrow> (fs, Some e)
      | Inr fs1 \<Rightarrow> (fs1, snd dumped))"

text \<open>
  \<^verbatim>\<open>_download_file\<close>: the request, then the file is opened, then the body is copied.
  The status of the response is not looked at.
\<close>

definition download_file :: "env \<Rightarrow> string \<Rightarrow> string \<Rightarrow> string \<Rightarrow> string \<Rightarrow> fs \<Rightarrow> fs \<times> error option" where
  "download_file env folder folder_name url fname fs =
     (case http_get env url of
        Inl e \<Rightarrow> (fs, Some e)
      | Inr r \<Rightarrow>
          (case write_sub_file fs folder folder_name fname (raw r) of
             Inl e \<Rightarrow> (fs, Some e)
           | Inr fs1 \<Rightarrow> (fs1, raw_error r)))"

text \<open>
  Every submitted task runs to its end: leaving the \<^verbatim>\<open>with\<close> block waits for the
  pool. The tasks are taken in the order of submission for their effect on the file
  system, and each result is kept with its URL.
\<close>

fun run_tasks :: "env \<Rightarrow> string \<Rightarrow> string \<Rightarrow> (string \<times> file_info) list \<Rightarrow> fs
                   \<Rightarrow> fs \<times> (string \<times> error option) list" where
  "run_tasks env folder folder_name [] fs = (fs, [])"
| "run_tasks env folder folder_name (link # links) fs =
     (case download_file env folder folder_name (fst link) (filename (snd link)) fs of
        (fs1, r) \<Rightarrow>
          (case run_tasks env folder folder_name links fs1 of
             (fs2, rs) \<Rightarrow> (fs2, (fst link, r) # rs)))"

text \<open>\<^verbatim>\<open>future.result()\<close> over the futures as they complete: the first exception is raised.\<close>

fun first_failure :: "(string \<times> error option) list \<Rightarrow> error option" where
  "first_failure [] = None"
| "first_failure (r # rs) = (case snd r of Some e \<Rightarrow> Some e | None \<Rightarrow> first_failure rs)"

text \<open>\<^verbatim>\<open>ThreadPoolExecutor\<close> raises \<^verbatim>\<open>ValueError\<close> for a worker count below one.\<close>

definition download_files :: "env \<Rightarrow> string \<Rightarrow> string \<Rightarrow> (string \<times> file_info) list \<Rightarrow> int
                               \<Rightarrow> fs \<Rightarrow> fs \<times> error option" where
  "download_files env folder folder_name links workers fs =
     (if workers \<le> 0 then (fs, Some ValueError)
      else (case run_tasks env folder folder_name links fs of
              (fs1, results) \<Rightarrow>
                (fs1, first_failure (sort_key (\<lambda>r. completion_rank env (fst r)) results))))"

section \<open>\_archive and the folder\<close>

record options =
  overwrite_folder :: "bool option"
  delete_folder :: "bool option"
  reverse_order :: "bool option"
  download_attachments :: "bool option"
  download_avatars :: "bool option"
  download_workers :: "int option"
  timestamp_format :: "string option"

text \<open>\<^verbatim>\<open>options.get(key, default)\<close>.\<close>

definition get_or :: "'a option \<Rightarrow> 'a \<Rightarrow> 'a" where
  "get_or v d = (case v of None \<Rightarrow> d | Some x \<Rightarrow> x)"

text \<open>Lines 226 to 249: the statements after the loop and the reordering.\<close>

definition write_outputs :: "env \<Rightarrow> archiver \<Rightarrow> loop_state \<Rightarrow> int list \<Rightarrow> message list
     \<Rightarrow> bool \<Rightarrow> bool \<Rightarrow> int \<Rightarrow> bool \<Rightarrow> bool \<Rightarrow> bool \<Rightarrow> string \<Rightarrow> fs \<Rightarrow> fs \<times> error option" where
  "write_outputs env self st rep msgs dl_attachments dl_avatars workers
       text_format html_format json_format ts_format =
     run_steps
       [when_set html_format
          (create_html_transcript env self msgs (attachments st) (people st) dl_avatars rep ts_format),
        when_set text_format (create_text_transcript env self msgs (attachments st) ts_format),
        when_set dl_attachments
          (download_files env (archive_folder_name self) ''attachments'' (attachments st) workers),
        when_set dl_avatars
          (download_files env (archive_folder_name self) ''avatars'' (avatars st) workers),
        when_set json_format
          (dump_json (archive_folder_name self) (archive_folder_name self @ ''.json'')
             (json_items env msgs)),
        dump_json (archive_folder_name self) ''space_details.json''
          (json_space env (the_room self) (room_creator self))]"

definition archive :: "env \<Rightarrow> archiver \<Rightarrow> bool \<Rightarrow> bool \<Rightarrow> bool \<Rightarrow> int \<Rightarrow> bool \<Rightarrow> bool \<Rightarrow> bool
                        \<Rightarrow> string \<Rightarrow> fs \<Rightarrow> call list \<times> fs \<times> error option" where
  "archive env self rev_order dl_attachments dl_avatars workers
       text_format html_format json_format ts_format fs =
     (case message_loop env dl_avatars (snd (messages self)) 0 (fst (messages self)) initial_state of
        (tr, Inl e) \<Rightarrow> (tr, fs, Some e)
      | (tr, Inr st) \<Rightarrow>
          (case reorder rev_order st of
             (rep, msgs) \<Rightarrow>
               (tr, write_outputs env self st rep msgs dl_attachments dl_avatars workers
                      text_format html_format json_format ts_format fs)))"

text \<open>\<^verbatim>\<open>shutil.copytree\<close> of one directory of static assets into the folder.\<close>

definition copy_static :: "env \<Rightarrow> string \<Rightarrow> string \<Rightarrow> fs \<Rightarrow> fs \<times> error option" where
  "copy_static env folder name fs =
     (case static_asset env name of
        None \<Rightarrow> (fs, Some FileNotFoundError)
      | Some (RegFile c) \<Rightarrow> (fs, Some NotADirectoryError)
      | Some (Directory ds) \<Rightarrow> written fs (add_entry fs folder name (Directory ds)))"

text \<open>The statements of \<^verbatim>\<open>_setup_folder\<close> that fill the new folder.\<close>

definition setup_rest :: "env \<Rightarrow> string \<Rightarrow> bool \<Rightarrow> bool \<Rightarrow> bool \<Rightarrow> (fs \<Rightarrow> fs \<times> error option) list" where
  "setup_rest env folder dl_attachments dl_avatars html_format =
     [when_set dl_attachments (\<lambda>fs. written fs (add_entry fs folder ''attachments'' (Directory []))),
      when_set dl_avatars (\<lambda>fs. written fs (add_entry fs folder ''avatars'' (Directory []))),
      when_set html_format
        (run_steps [copy_static env folder ''.css'', copy_static env folder ''.js'',
                    copy_static env folder ''.fonts''])]"

definition setup_folder :: "env \<Rightarrow> string \<Rightarrow> bool \<Rightarrow> bool \<Rightarrow> bool \<Rightarrow> bool \<Rightarrow> fs \<Rightarrow> fs \<times> error option" where
  "setup_folder env folder overwrite dl_attachments dl_avatars html_format fs =
     run_steps
       ([\<lambda>fs. (if isdir fs folder \<and> overwrite then rmtree fs folder else fs, None),
         \<lambda>fs. written fs (makedirs fs folder)]
        @ setup_rest env folder dl_attachments dl_avatars html_format)
       fs"

definition tear_down_folder :: "string \<Rightarrow> fs \<Rightarrow> fs" where
  "tear_down_folder folder fs = (if isdir fs folder then rmtree fs folder else fs)"

text \<open>
  \<^verbatim>\<open>tarfile.open(name, "w:gz")\<close> creates or empties the archive file, \<^verbatim>\<open>tar.add\<close>
  reads what is at the folder's path and raises when nothing is there, and leaving the \<^verbatim>\<open>with\<close> block closes the
  file, also when \<^verbatim>\<open>tar.add\<close> has raised.
\<close>

definition compress_folder :: "env \<Rightarrow> string \<Rightarrow> fs \<Rightarrow> fs \<times> error option" where
  "compress_folder env folder fs =
     (case fs (folder @ ''.tgz'') of
        Some (Directory ds) \<Rightarrow> (fs, Some IsADirectoryError)
      | _ \<Rightarrow>
          (fs(folder @ ''.tgz'' \<mapsto> RegFile (fst (tar_gz env folder (fs folder)))),
           (case fs folder of
              None \<Rightarrow> Some FileNotFoundError
            | Some n \<Rightarrow> snd (tar_gz env folder (fs folder)))))"

section \<open>archive\_room\<close>

text \<open>
  \<^verbatim>\<open>_gather_room_information\<close>. The listing of the messages is lazy: it makes no
  request here, and asks for the messages that mention the caller when the caller
  is a bot.
\<close>

definition gather_room_information :: "env \<Rightarrow> string \<Rightarrow> call list \<times> (error + archiver)" where
  "gather_room_information env room_id =
     (case rooms_get env room_id of
        Inl e \<Rightarrow> ([GetRoom room_id], Inl e)
      | Inr rm \<Rightarrow>
          (let name = sanitize_name env (title rm) @ ''_'' @ room_id;
               tr = [GetRoom room_id, GetCreator (creatorId rm)];
               continue = (\<lambda>creator.
                 (case people_me env of
                    Inl e \<Rightarrow> (tr @ [GetMe], Inl e)
                  | Inr me \<Rightarrow>
                      (tr @ [GetMe],
                       Inr \<lparr>the_room = rm, archive_folder_name = name, room_creator = creator,
                            messages = messages_list env room_id (person_type me = ''bot'')\<rparr>)))
           in (case people_get env (creatorId rm) of
                 Inr p \<Rightarrow> continue (Person p)
               | Inl e \<Rightarrow>
                   (case e of
                      ApiError code \<Rightarrow>
                        if code = 404
                        then continue (UserNotFound (creatorId rm) [''unknown''] ''Person Not Found'' None)
                        else (tr, Inl e)
                    | _ \<Rightarrow> (tr, Inl e)))))"

text \<open>
  The calls of \<^verbatim>\<open>_setup_folder\<close> and \<^verbatim>\<open>_archive\<close> as \<^verbatim>\<open>archive_room\<close> makes
  them, with the defaults of the options.
\<close>

definition setup_with :: "env \<Rightarrow> archiver \<Rightarrow> options \<Rightarrow> bool \<Rightarrow> fs \<Rightarrow> fs \<times> error option" where
  "setup_with env self opts html_format fs =
     setup_folder env (archive_folder_name self) (get_or (overwrite_folder opts) True)
       (get_or (download_attachments opts) True) (get_or (download_avatars opts) True)
       html_format fs"

definition archive_with :: "env \<Rightarrow> archiver \<Rightarrow> options \<Rightarrow> bool \<Rightarrow> bool \<Rightarrow> bool \<Rightarrow> fs
                             \<Rightarrow> call list \<times> fs \<times> error option" where
  "archive_with env self opts text_format html_format json_format fs =
     archive env self (get_or (reverse_order opts) True)
       (get_or (download_attachments opts) True) (get_or (download_avatars opts) True)
       (get_or (download_workers opts) 15) text_format html_format json_format
       (get_or (timestamp_format opts) ''%Y-%m-%dT%H:%M:%S'') fs"

text \<open>The body of the \<^verbatim>\<open>try\<close> statement: \<^verbatim>\<open>_archive\<close>, then \<^verbatim>\<open>_compress_folder\<close>.\<close>

definition try_body :: "env \<Rightarrow> archiver \<Rightarrow> options \<Rightarrow> bool \<Rightarrow> bool \<Rightarrow> bool \<Rightarrow> fs
                         \<Rightarrow> call list \<times> fs \<times> error option" where
  "try_body env self opts text_format html_format json_format fs =
     (case archive_with env self opts text_format html_format json_format fs of
        (tr, fs1, Some e) \<Rightarrow> (tr, fs1, Some e)
      | (tr, fs1, None) \<Rightarrow> (tr, compress_folder env (archive_folder_name self) fs1))"

text \<open>
  \<^verbatim>\<open>archive_room\<close> returns the calls made, the file system it leaves, and the name
  of the archive file or the exception it raises. The folder is set up before the
  \<^verbatim>\<open>try\<close> statement; the handler tears the folder down and raises again.
\<close>

definition archive_room :: "env \<Rightarrow> string \<Rightarrow> bool \<Rightarrow> bool \<Rightarrow> bool \<Rightarrow> options \<Rightarrow> fs
                             \<Rightarrow> call list \<times> fs \<times> (error + string)" where
  "archive_room env room_id text_format html_format json_format opts fs =
     (case gather_room_information env room_id of
        (tr0, Inl e) \<Rightarrow> (tr0, fs, Inl e)
      | (tr0, Inr self) \<Rightarrow>
          (case setup_with env self opts html_format fs of
             (fs1, Some e) \<Rightarrow> (tr0, fs1, Inl e)
           | (fs1, None) \<Rightarrow>
               (case try_body env self opts text_format html_format json_format fs1 of
                  (tr, fs2, Some e) \<Rightarrow>
                    (tr0 @ tr, tear_down_folder (archive_folder_name self) fs2, Inl e)
                | (tr, fs2, None) \<Rightarrow>
                    (tr0 @ tr,
                     (if get_or (delete_folder opts) False
                      then tear_down_folder (archive_folder_name self) fs2 else fs2),
                     Inr (archive_folder_name self @ ''.tgz'')))))"

section \<open>A concrete room\<close>

text \<open>
  Collaborators that all succeed, for a room with the given messages: every person
  exists and has an avatar, every attachment is \<^verbatim>\<open>a.txt\<close>, every download
  delivers four bytes. The examples below change one collaborator at a time.
\<close>

definition demo_env :: "message list \<Rightarrow> env" where
  "demo_env msgs =
     \<lparr>sanitize_name = (\<lambda>s. s),
      rooms_get = (\<lambda>r. Inr \<lparr>room_ident = r, title = ''Team'', creatorId = ''p0''\<rparr>),
      people_get = (\<lambda>p. Inr \<lparr>person_id = p, emails = [], displayName = ''Someone'',
                              avatar = Some (''https://avatar/'' @ p), person_type = ''person''\<rparr>),
      people_me = Inr \<lparr>person_id = ''me'', emails = [], displayName = ''Me'',
                       avatar = None, person_type = ''person''\<rparr>,
      messages_list = (\<lambda>r mentioned. (msgs, None)),
      http_head = (\<lambda>u. Inr \<lparr>status_code = 200,
                             hdr_content_disposition =
                               Some (''attachment; filename='' @ [CHR 0x22] @ ''a.txt'' @ [CHR 0x22]),
                             hdr_content_length = Some ''4'',
                             hdr_content_type = Some ''text/plain''\<rparr>),
      http_get = (\<lambda>u. Inr \<lparr>get_status = 200, raw = ''data'', raw_error = None\<rparr>),
      render_html = (\<lambda>rm cr ms att ppl av rep ts. Inr ''<html>''),
      render_text = (\<lambda>rm cr ms att ts. Inr ''text''),
      json_items = (\<lambda>ms. (''{}'', None)),
      json_space = (\<lambda>rm cr. (''{}'', None)),
      static_asset = (\<lambda>n. Some (Directory [])),
      tar_gz = (\<lambda>n d. (''tgz'', None)),
      completion_rank = (\<lambda>u. 0)\<rparr>"

definition demo_msg :: "string \<Rightarrow> int \<Rightarrow> string list option \<Rightarrow> message" where
  "demo_msg email seconds urls =
     \<lparr>msg_id = ''m'', personEmail = email, personId = ''id-'' @ email,
      created = seconds * 1000000, body_text = ''hello'', files = urls\<rparr>"

definition no_options :: options where
  "no_options =
     \<lparr>overwrite_folder = None, delete_folder = None, reverse_order = None,
      download_attachments = None, download_avatars = None, download_workers = None,
      timestamp_format = None\<rparr>"

text \<open>The attributes that \<^verbatim>\<open>_gather_room_information\<close> sets for that room.\<close>

definition demo_archiver :: "message list \<Rightarrow> archiver" where
  "demo_archiver msgs =
     \<lparr>the_room = \<lparr>room_ident = ''r1'', title = ''Team'', creatorId = ''p0''\<rparr>,
      archive_folder_name = ''Team_r1'',
      room_creator = Person \<lparr>person_id = ''p0'', emails = [], displayName = ''Someone'',
                              avatar = Some ''https://avatar/p0'', person_type = ''person''\<rparr>,
      messages = (msgs, None)\<rparr>"

text \<open>
  Two messages of one sender that carry the same URL, the newer one first and ten
  seconds apart.
\<close>

definition same_sender :: "message list" where
  "same_sender = [demo_msg ''a@x'' 10 (Some [''u'']), demo_msg ''a@x'' 0 (Some [''u''])]"

text \<open>Two messages of one sender, the newer one first, one day and ten seconds apart.\<close>

definition day_apart :: "message list" where
  "day_apart = [demo_msg ''a@x'' 86410 None, demo_msg ''a@x'' 0 None]"

text \<open>Two messages of one sender ten seconds apart, the older one first.\<close>

definition oldest_first :: "message list" where
  "oldest_first = [demo_msg ''a@x'' 0 None, demo_msg ''a@x'' 10 None]"

text \<open>Three messages, the newest first: two of one sender ten seconds apart, then another sender.\<close>

definition three_messages :: "message list" where
  "three_messages =
     [demo_msg ''a@x'' 20 None, demo_msg ''a@x'' 10 None, demo_msg ''b@x'' 0 None]"

text \<open>One message with one attachment.\<close>

definition one_attachment :: "message list" where
  "one_attachment = [demo_msg ''a@x'' 0 (Some [''u''])]"

text \<open>The attachment has been deleted on the server: both requests answer 404.\<close>

definition env_head_gone :: env where
  "env_head_gone =
     (demo_env one_attachment)
       \<lparr>http_head := (\<lambda>u. Inr \<lparr>status_code = 404, hdr_content_disposition = None,
                                hdr_content_length = None, hdr_content_type = None\<rparr>),
        http_get := (\<lambda>u. if u = ''u''
                          then Inr \<lparr>get_status = 404, raw = ''gone'', raw_error = None\<rparr>
                          else Inr \<lparr>get_status = 200, raw = ''data'', raw_error = None\<rparr>)\<rparr>"

text \<open>The metadata request succeeds with a header that names no file.\<close>

definition nameless_head :: head_response where
  "nameless_head =
     \<lparr>status_code = 200, hdr_content_disposition = Some ''attachment'',
      hdr_content_length = Some ''4'', hdr_content_type = Some ''text/plain''\<rparr>"

definition env_head_nameless :: env where
  "env_head_nameless = (demo_env one_attachment)\<lparr>http_head := (\<lambda>u. Inr nameless_head)\<rparr>"

text \<open>Every download is answered with the status 500 and an error page.\<close>

definition env_get_500 :: env where
  "env_get_500 =
     (demo_env one_attachment)
       \<lparr>http_get := (\<lambda>u. Inr \<lparr>get_status = 500, raw = ''Internal Server Error'',
                               raw_error = None\<rparr>)\<rparr>"

text \<open>Every download fails in the network.\<close>

definition env_get_fails :: env where
  "env_get_fails = (demo_env one_attachment)\<lparr>http_get := (\<lambda>u. Inl RequestException)\<rparr>"

text \<open>Writing the archive file stops after some bytes.\<close>

definition env_tar_fails :: env where
  "env_tar_fails =
     (demo_env one_attachment)\<lparr>tar_gz := (\<lambda>n d. (''partial'', Some (OtherError ''disk full'')))\<rparr>"

text \<open>A working directory that holds the folder of an earlier run.\<close>

definition old_folder :: fs where
  "old_folder = Map.empty(''Team_r1'' \<mapsto> Directory [(''old.txt'', RegFile ''old'')])"

text \<open>A working directory with the folder as \<^verbatim>\<open>_setup_folder\<close> leaves it.\<close>

definition fresh_folder :: fs where
  "fresh_folder =
     Map.empty(''Team_r1'' \<mapsto> Directory [(''attachments'', Directory []), (''avatars'', Directory [])])"

section \<open>Lemmas\<close>

subsection \<open>The metadata probe\<close>

lemma file_details_not_found:
  "http_head env url = Inr r \<Longrightarrow> status_code r = 404 \<Longrightarrow>
   file_details env url = Inr (File [] (PyInt 0) [] [] True)"
  by (simp add: file_details_def)

lemma suffix_malformed_message: "suffix url (malformed_message cd url)"
  unfolding malformed_message_def suffix_def by (metis append.assoc)

subsection \<open>What is a directory stays one\<close>

text \<open>
  No statement of \<^verbatim>\<open>_archive\<close>, \<^verbatim>\<open>_setup_folder\<close> after the folder is made, or
  \<^verbatim>\<open>_compress_folder\<close> turns a directory of the working directory into something else
  or makes one.
\<close>

lemma run_steps_preserves:
  assumes "\<And>step fs fs' r. step \<in> set steps \<Longrightarrow> P fs \<Longrightarrow> step fs = (fs', r) \<Longrightarrow> P fs'"
    and "P fs" and "run_steps steps fs = (fs', r)"
  shows "P fs'"
  using assms
proof (induction steps arbitrary: fs)
  case Nil
  then show ?case by simp
next
  case (Cons s steps)
  obtain fs1 r1 where s: "s fs = (fs1, r1)" by (cases "s fs")
  have P1: "P fs1" using Cons.prems(1)[of s fs fs1 r1] Cons.prems(2) s by simp
  show ?case
  proof (cases r1)
    case None
    then have "run_steps steps fs1 = (fs', r)" using Cons.prems(3) s by simp
    moreover have "\<And>step fs fs' r. step \<in> set steps \<Longrightarrow> P fs \<Longrightarrow> step fs = (fs', r) \<Longrightarrow> P fs'"
      using Cons.prems(1) by (meson list.set_intros(2))
    ultimately show ?thesis using Cons.IH[of fs1] P1 by blast
  next
    case (Some e)
    then have "fs' = fs1" using Cons.prems(3) s by simp
    then show ?thesis using P1 by simp
  qed
qed

lemma when_set_preserves:
  "(\<And>fs fs' r. P fs \<Longrightarrow> step fs = (fs', r) \<Longrightarrow> P fs') \<Longrightarrow> P fs \<Longrightarrow> when_set b step fs = (fs', r) \<Longrightarrow> P fs'"
  by (cases b) (auto simp: when_set_def)

lemma isdir_write_file:
  "write_file fs folder name content = Inr fs' \<Longrightarrow> isdir fs' q = isdir fs q"
  by (auto simp: write_file_def isdir_def split: option.splits node.splits sum.splits if_splits)

lemma isdir_write_sub_file:
  "write_sub_file fs folder sub name content = Inr fs' \<Longrightarrow> isdir fs' q = isdir fs q"
  by (auto simp: write_sub_file_def isdir_def split: option.splits node.splits sum.splits if_splits)

lemma isdir_add_entry:
  "add_entry fs folder sub n = Inr fs' \<Longrightarrow> isdir fs' q = isdir fs q"
  by (auto simp: add_entry_def isdir_def split: option.splits node.splits sum.splits if_splits)

lemma isdir_written_file:
  "written fs (write_file fs folder name content) = (fs', e) \<Longrightarrow> isdir fs' q = isdir fs q"
  by (cases "write_file fs folder name content") (auto simp: written_def dest: isdir_write_file)

lemma isdir_written_entry:
  "written fs (add_entry fs folder sub n) = (fs', e) \<Longrightarrow> isdir fs' q = isdir fs q"
  by (cases "add_entry fs folder sub n") (auto simp: written_def dest: isdir_add_entry)

lemma isdir_create_text_transcript:
  "create_text_transcript env self msgs att ts fs = (fs', r) \<Longrightarrow> isdir fs' q = isdir fs q"
  unfolding create_text_transcript_def
  by (auto split: sum.splits dest: isdir_written_file)

lemma isdir_create_html_transcript:
  "create_html_transcript env self msgs att ppl av rep ts fs = (fs', r) \<Longrightarrow> isdir fs' q = isdir fs q"
  unfolding create_html_transcript_def
  by (auto split: sum.splits dest: isdir_written_file)

lemma isdir_dump_json:
  "dump_json folder name dumped fs = (fs', r) \<Longrightarrow> isdir fs' q = isdir fs q"
  unfolding dump_json_def
  by (auto split: sum.splits dest: isdir_write_file)

lemma isdir_download_file:
  "download_file env folder folder_name url fname fs = (fs', r) \<Longrightarrow> isdir fs' q = isdir fs q"
  unfolding download_file_def
  by (auto split: sum.splits dest: isdir_write_sub_file)

lemma isdir_run_tasks:
  "run_tasks env folder folder_name links fs = (fs', rs) \<Longrightarrow> isdir fs' q = isdir fs q"
proof (induction links arbitrary: fs fs' rs)
  case Nil
  then show ?case by simp
next
  case (Cons link links)
  obtain fs1 r where d: "download_file env folder folder_name (fst link) (filename (snd link)) fs = (fs1, r)"
    by (cases "download_file env folder folder_name (fst link) (filename (snd link)) fs")
  obtain fs2 rs2 where t: "run_tasks env folder folder_name links fs1 = (fs2, rs2)"
    by (cases "run_tasks env folder folder_name links fs1")
  have "fs' = fs2" using Cons.prems d t by simp
  then show ?case using Cons.IH[OF t] isdir_download_file[OF d] by simp
qed

lemma isdir_download_files:
  "download_files env folder folder_name links workers fs = (fs', r) \<Longrightarrow> isdir fs' q = isdir fs q"
  unfolding download_files_def
  by (auto split: if_splits prod.splits dest: isdir_run_tasks)

lemma isdir_write_outputs:
  assumes "write_outputs env self st rep msgs da dv workers tf hf jf ts fs = (fs', r)"
  shows "isdir fs' q = isdir fs q"
proof -
  have P: "(\<lambda>x. isdir x q = isdir fs q) fs'"
  proof (rule run_steps_preserves[where P = "\<lambda>x. isdir x q = isdir fs q" and fs = fs and r = r])
    show "run_steps
       [when_set hf
          (create_html_transcript env self msgs (attachments st) (people st) dv rep ts),
        when_set tf (create_text_transcript env self msgs (attachments st) ts),
        when_set da
          (download_files env (archive_folder_name self) ''attachments'' (attachments st) workers),
        when_set dv
          (download_files env (archive_folder_name self) ''avatars'' (avatars st) workers),
        when_set jf
          (dump_json (archive_folder_name self) (archive_folder_name self @ ''.json'')
             (json_items env msgs)),
        dump_json (archive_folder_name self) ''space_details.json''
          (json_space env (the_room self) (room_creator self))] fs = (fs', r)"
      using assms by (simp add: write_outputs_def)
  next
    show "isdir fs q = isdir fs q" by simp
  next
    fix step x x' r'
    assume "step \<in> set [when_set hf
          (create_html_transcript env self msgs (attachments st) (people st) dv rep ts),
        when_set tf (create_text_transcript env self msgs (attachments st) ts),
        when_set da
          (download_files env (archive_folder_name self) ''attachments'' (attachments st) workers),
        when_set dv
          (download_files env (archive_folder_name self) ''avatars'' (avatars st) workers),
        when_set jf
          (dump_json (archive_folder_name self) (archive_folder_name self @ ''.json'')
             (json_items env msgs)),
        dump_json (archive_folder_name self) ''space_details.json''
          (json_space env (the_room self) (room_creator self))]"
      and "isdir x q = isdir fs q" and "step x = (x', r')"
    then show "isdir x' q = isdir fs q"
      by (auto simp: when_set_def split: if_splits
            dest: isdir_create_html_transcript isdir_create_text_transcript
                  isdir_download_files isdir_dump_json)
  qed
  then show ?thesis by simp
qed

lemma isdir_archive:
  "archive env self ro da dv workers tf hf jf ts fs = (tr, fs', r) \<Longrightarrow> isdir fs' q = isdir fs q"
  unfolding archive_def
  by (auto split: prod.splits sum.splits dest: isdir_write_outputs)

lemma isdir_compress_folder:
  "compress_folder env folder fs = (fs', r) \<Longrightarrow> isdir fs' folder = isdir fs folder"
  unfolding compress_folder_def
  by (auto simp: isdir_def split: option.splits node.splits)

lemma isdir_archive_with:
  "archive_with env self opts tf hf jf fs = (tr, fs', r) \<Longrightarrow> isdir fs' q = isdir fs q"
  unfolding archive_with_def by (rule isdir_archive)

lemma isdir_try_body:
  "try_body env self opts tf hf jf fs = (tr, fs', r) \<Longrightarrow>
   isdir fs' (archive_folder_name self) = isdir fs (archive_folder_name self)"
  unfolding try_body_def
  by (auto split: prod.splits option.splits dest: isdir_archive_with isdir_compress_folder)

lemma isdir_copy_static:
  "copy_static env folder name fs = (fs', r) \<Longrightarrow> isdir fs' q = isdir fs q"
  unfolding copy_static_def
  by (auto split: option.splits node.splits dest: isdir_written_entry)

lemma isdir_copy_all:
  assumes "run_steps [copy_static env folder ''.css'', copy_static env folder ''.js'',
                      copy_static env folder ''.fonts''] fs = (fs', r)"
  shows "isdir fs' q = isdir fs q"
proof -
  have "(\<lambda>x. isdir x q = isdir fs q) fs'"
    by (rule run_steps_preserves[where P = "\<lambda>x. isdir x q = isdir fs q", OF _ _ assms])
       (auto dest: isdir_copy_static)
  then show ?thesis .
qed

lemma isdir_setup_rest:
  assumes "run_steps (setup_rest env folder da dv hf) fs = (fs', r)"
  shows "isdir fs' q = isdir fs q"
proof -
  have "(\<lambda>x. isdir x q = isdir fs q) fs'"
    by (rule run_steps_preserves[where P = "\<lambda>x. isdir x q = isdir fs q", OF _ _ assms])
       (auto simp: setup_rest_def when_set_def simp del: run_steps.simps split: if_splits
             dest: isdir_written_entry isdir_copy_all)
  then show ?thesis .
qed

lemma setup_folder_unfold:
  "setup_folder env folder ow da dv hf fs =
     (case makedirs (if isdir fs folder \<and> ow then rmtree fs folder else fs) folder of
        Inl e \<Rightarrow> (if isdir fs folder \<and> ow then rmtree fs folder else fs, Some e)
      | Inr fs1 \<Rightarrow> run_steps (setup_rest env folder da dv hf) fs1)"
  by (simp add: setup_folder_def written_def split: sum.splits)

lemma isdir_makedirs: "makedirs fs folder = Inr fs1 \<Longrightarrow> isdir fs1 folder"
  by (auto simp: makedirs_def isdir_def split: option.splits)

lemma setup_folder_created:
  assumes "setup_folder env folder ow da dv hf fs = (fs', None)"
  shows "isdir fs' folder"
proof (cases "makedirs (if isdir fs folder \<and> ow then rmtree fs folder else fs) folder")
  case (Inl e)
  then show ?thesis using assms by (simp add: setup_folder_unfold)
next
  case (Inr fs1)
  then have "run_steps (setup_rest env folder da dv hf) fs1 = (fs', None)"
    using assms by (simp add: setup_folder_unfold)
  then show ?thesis using isdir_setup_rest isdir_makedirs[OF Inr] by blast
qed

lemma tear_down_folder_removes: "isdir fs folder \<Longrightarrow> tear_down_folder folder fs folder = None"
  by (simp add: tear_down_folder_def rmtree_def)

lemma tear_down_folder_frame: "p \<noteq> folder \<Longrightarrow> tear_down_folder folder fs p = fs p"
  by (simp add: tear_down_folder_def rmtree_def)

subsection \<open>The message pass, one message at a time\<close>

lemma lookups_append: "lookups (xs @ ys) = lookups xs @ lookups ys"
  by (induction xs rule: lookups.induct) auto

lemma probes_append: "probes (xs @ ys) = probes xs @ probes ys"
  by (induction xs rule: probes.induct) auto

lemma note_message_fields:
  assumes "note_message index msg st = Inr st1"
  shows "people st1 = people st" and "attachments st1 = attachments st"
    and "processed_messages st1 = processed_messages st @ [msg]"
    and "set (repeat_indeces st1) \<subseteq> insert index (set (repeat_indeces st))"
    and "index \<le> 0 \<Longrightarrow> repeat_indeces st1 = repeat_indeces st"
    and "index \<notin> set (repeat_indeces st) \<Longrightarrow> distinct (repeat_indeces st) \<Longrightarrow> distinct (repeat_indeces st1)"
  using assms
  by (auto simp: note_message_def Let_def split: if_splits option.splits)

lemma note_avatar_fields:
  "people (note_avatar env da msg w st) = people st"
  "attachments (note_avatar env da msg w st) = attachments st"
  "processed_messages (note_avatar env da msg w st) = processed_messages st"
  "repeat_indeces (note_avatar env da msg w st) = repeat_indeces st"
  by (auto simp: note_avatar_def split: option.splits)

lemma cache_person_fields:
  "people (cache_person env da msg w st) = AList.update (personEmail msg) w (people st)"
  "attachments (cache_person env da msg w st) = attachments st"
  "processed_messages (cache_person env da msg w st) = processed_messages st"
  "repeat_indeces (cache_person env da msg w st) = repeat_indeces st"
  by (simp_all add: cache_person_def note_avatar_fields)

lemma resolve_person_calls:
  assumes "resolve_person env da msg st = (tr, r)"
  shows "tr = (if map_of (people st) (personEmail msg) = None
               then [GetPerson (personEmail msg) (personId msg)] else [])"
  using assms by (auto simp: resolve_person_def split: option.splits)

lemma resolve_person_state:
  assumes "resolve_person env da msg st = (tr, Inr st1)"
  shows "(map_of (people st) (personEmail msg) \<noteq> None \<and> st1 = st)
         \<or> (\<exists>w. st1 = cache_person env da msg w st)"
  using assms
  by (auto simp: resolve_person_def split: option.splits sum.splits error.splits if_splits)

lemma keys_update: "dict_keys (AList.update k v al) = insert k (dict_keys al)"
  by (simp add: dict_keys_def dom_update)

lemma key_missing: "map_of al k = None \<longleftrightarrow> k \<notin> dict_keys al"
  by (simp add: dict_keys_def map_of_eq_None_iff)

lemma key_present: "map_of al k \<noteq> None \<Longrightarrow> insert k (dict_keys al) = dict_keys al"
  by (auto simp: key_missing)

lemma resolve_person_fields:
  assumes "resolve_person env da msg st = (tr, Inr st1)"
  shows "dict_keys (people st1) = insert (personEmail msg) (dict_keys (people st))"
    and "distinct (map fst (people st)) \<Longrightarrow> distinct (map fst (people st1))"
    and "attachments st1 = attachments st"
    and "processed_messages st1 = processed_messages st"
    and "repeat_indeces st1 = repeat_indeces st"
proof -
  from resolve_person_state[OF assms]
  consider "map_of (people st) (personEmail msg) \<noteq> None" "st1 = st"
    | w where "st1 = cache_person env da msg w st"
    by blast
  note cases = this
  show "dict_keys (people st1) = insert (personEmail msg) (dict_keys (people st))"
    by (rule cases) (simp_all add: cache_person_fields keys_update key_present)
  show "distinct (map fst (people st)) \<Longrightarrow> distinct (map fst (people st1))"
    by (rule cases) (simp_all add: cache_person_fields distinct_update)
  show "attachments st1 = attachments st"
    by (rule cases) (simp_all add: cache_person_fields)
  show "processed_messages st1 = processed_messages st"
    by (rule cases) (simp_all add: cache_person_fields)
  show "repeat_indeces st1 = repeat_indeces st"
    by (rule cases) (simp_all add: cache_person_fields)
qed

lemma probe_files_calls:
  assumes "probe_files env urls att = (tr, r)"
  shows "lookups tr = []" and "prefix (probes tr) urls"
  using assms
  by (induction urls arbitrary: att tr r) (auto split: sum.splits prod.splits)

lemma probe_files_done:
  "probe_files env urls att = (tr, Inr att') \<Longrightarrow>
     probes tr = urls \<and> dict_keys att' = dict_keys att \<union> set urls
     \<and> (distinct (map fst att) \<longrightarrow> distinct (map fst att'))"
proof (induction urls arbitrary: att tr)
  case Nil
  then show ?case by simp
next
  case (Cons url urls)
  from Cons.prems obtain f tr2 where
    f: "file_details env url = Inr f"
    and rest: "probe_files env urls (AList.update url f att) = (tr2, Inr att')"
    and tr: "tr = FileDetails url # tr2"
    by (auto split: sum.splits prod.splits)
  from Cons.IH[OF rest] show ?case
    using tr by (simp add: keys_update distinct_update)
qed

lemma loop_body_trace:
  assumes "loop_body env da index msg st = (tr, r)"
  shows "\<exists>tr1 tr2. tr = tr1 @ tr2
           \<and> (tr1 = [] \<or> (tr1 = [GetPerson (personEmail msg) (personId msg)]
                            \<and> personEmail msg \<notin> dict_keys (people st)))
           \<and> lookups tr2 = [] \<and> prefix (probes tr2) (urls_of msg)"
proof (cases "note_message index msg st")
  case (Inl e)
  then have "tr = []" using assms by (simp add: loop_body_def)
  then show ?thesis by simp
next
  case (Inr st1)
  obtain tr1 r1 where p: "resolve_person env da msg st1 = (tr1, r1)"
    by (cases "resolve_person env da msg st1")
  have tr1: "tr1 = [] \<or> (tr1 = [GetPerson (personEmail msg) (personId msg)]
                            \<and> personEmail msg \<notin> dict_keys (people st))"
    using resolve_person_calls[OF p] note_message_fields(1)[OF Inr]
    by (simp add: key_missing split: if_splits)
  obtain tr2 r2 where q: "probe_files env (urls_of msg) (attachments (case r1 of Inr s \<Rightarrow> s | Inl e \<Rightarrow> st1)) = (tr2, r2)"
    by (cases "probe_files env (urls_of msg) (attachments (case r1 of Inr s \<Rightarrow> s | Inl e \<Rightarrow> st1))")
  have "tr = tr1 \<or> tr = tr1 @ tr2"
    using assms Inr p q
    by (cases r1; cases "files msg") (auto simp: loop_body_def urls_of_def split: if_splits sum.splits)
  then consider "tr = tr1 @ []" | "tr = tr1 @ tr2" by auto
  then show ?thesis
  proof cases
    case 1
    show ?thesis
      by (rule exI[of _ tr1], rule exI[of _ "[]"]) (use 1 tr1 in simp)
  next
    case 2
    show ?thesis
      by (rule exI[of _ tr1], rule exI[of _ tr2]) (use 2 tr1 probe_files_calls[OF q] in simp)
  qed
qed

lemma loop_body_calls:
  assumes "loop_body env da index msg st = (tr, r)"
  shows "set (lookups tr) \<subseteq> {personEmail msg} - dict_keys (people st)"
    and "distinct (lookups tr)"
    and "prefix (probes tr) (urls_of msg)"
proof -
  from loop_body_trace[OF assms] obtain tr1 tr2 where
    tr: "tr = tr1 @ tr2"
    and tr1: "tr1 = [] \<or> (tr1 = [GetPerson (personEmail msg) (personId msg)]
                            \<and> personEmail msg \<notin> dict_keys (people st))"
    and tr2: "lookups tr2 = []" "prefix (probes tr2) (urls_of msg)"
    by blast
  show "set (lookups tr) \<subseteq> {personEmail msg} - dict_keys (people st)"
    using tr tr1 tr2(1) by (auto simp: lookups_append)
  show "distinct (lookups tr)"
    using tr tr1 tr2(1) by (auto simp: lookups_append)
  show "prefix (probes tr) (urls_of msg)"
    using tr tr1 tr2(2) by (auto simp: probes_append)
qed

lemma loop_body_done:
  assumes "loop_body env da index msg st = (tr, Inr st')"
  shows "dict_keys (people st') = insert (personEmail msg) (dict_keys (people st))"
    and "distinct (map fst (people st)) \<Longrightarrow> distinct (map fst (people st'))"
    and "probes tr = urls_of msg"
    and "dict_keys (attachments st') = dict_keys (attachments st) \<union> set (urls_of msg)"
    and "distinct (map fst (attachments st)) \<Longrightarrow> distinct (map fst (attachments st'))"
    and "processed_messages st' = processed_messages st @ [msg]"
    and "set (repeat_indeces st') \<subseteq> insert index (set (repeat_indeces st))"
    and "index \<le> 0 \<Longrightarrow> repeat_indeces st' = repeat_indeces st"
    and "index \<notin> set (repeat_indeces st) \<Longrightarrow> distinct (repeat_indeces st)
           \<Longrightarrow> distinct (repeat_indeces st')"
proof -
  from assms obtain st1 tr1 st2 where
    n: "note_message index msg st = Inr st1"
    and p: "resolve_person env da msg st1 = (tr1, Inr st2)"
    and f: "(urls_of msg = [] \<and> tr = tr1 \<and> st' = st2)
            \<or> (\<exists>tr2 att. probe_files env (urls_of msg) (attachments st2) = (tr2, Inr att)
                  \<and> tr = tr1 @ tr2 \<and> st' = st2\<lparr>attachments := att\<rparr>)"
    by (auto simp: loop_body_def urls_of_def
             split: sum.splits prod.splits option.splits if_splits)
  note nf = note_message_fields[OF n]
  note pf = resolve_person_fields[OF p]
  have tr1: "probes tr1 = []"
    using resolve_person_calls[OF p] by (simp split: if_splits)
  have rest: "people st' = people st2 \<and> processed_messages st' = processed_messages st2
              \<and> repeat_indeces st' = repeat_indeces st2"
    using f by auto
  have att: "probes tr = urls_of msg
             \<and> dict_keys (attachments st') = dict_keys (attachments st2) \<union> set (urls_of msg)
             \<and> (distinct (map fst (attachments st2)) \<longrightarrow> distinct (map fst (attachments st')))"
    using f
  proof
    assume "urls_of msg = [] \<and> tr = tr1 \<and> st' = st2"
    then show ?thesis using tr1 by simp
  next
    assume "\<exists>tr2 att. probe_files env (urls_of msg) (attachments st2) = (tr2, Inr att)
                  \<and> tr = tr1 @ tr2 \<and> st' = st2\<lparr>attachments := att\<rparr>"
    then obtain tr2 att where
      q: "probe_files env (urls_of msg) (attachments st2) = (tr2, Inr att)"
      and e: "tr = tr1 @ tr2" "st' = st2\<lparr>attachments := att\<rparr>"
      by blast
    from probe_files_done[OF q] show ?thesis
      using e tr1 by (simp add: probes_append)
  qed
  show "dict_keys (people st') = insert (personEmail msg) (dict_keys (people st))"
    using rest pf(1) nf(1) by simp
  show "distinct (map fst (people st)) \<Longrightarrow> distinct (map fst (people st'))"
    using rest pf(2) nf(1) by simp
  show "probes tr = urls_of msg"
    using att by simp
  show "dict_keys (attachments st') = dict_keys (attachments st) \<union> set (urls_of msg)"
    using att pf(3) nf(2) by simp
  show "distinct (map fst (attachments st)) \<Longrightarrow> distinct (map fst (attachments st'))"
    using att pf(3) nf(2) by simp
  show "processed_messages st' = processed_messages st @ [msg]"
    using rest pf(4) nf(3) by simp
  show "set (repeat_indeces st') \<subseteq> insert index (set (repeat_indeces st))"
    using rest pf(5) nf(4) by simp
  show "index \<le> 0 \<Longrightarrow> repeat_indeces st' = repeat_indeces st"
    using rest pf(5) nf(5) by simp
  show "index \<notin> set (repeat_indeces st) \<Longrightarrow> distinct (repeat_indeces st)
           \<Longrightarrow> distinct (repeat_indeces st')"
    using rest pf(5) nf(6) by simp
qed

subsection \<open>The message pass as a whole\<close>

lemma message_loop_calls:
  "message_loop env da tail index msgs st = (tr, r) \<Longrightarrow>
     distinct (lookups tr)
     \<and> set (lookups tr) \<subseteq> personEmail ` set msgs - dict_keys (people st)
     \<and> prefix (probes tr) (concat (map urls_of msgs))"
proof (induction msgs arbitrary: index st tr r)
  case Nil
  then show ?case by (simp split: option.splits)
next
  case (Cons msg msgs)
  obtain tr1 r1 where b: "loop_body env da index msg st = (tr1, r1)"
    by (cases "loop_body env da index msg st")
  note c = loop_body_calls[OF b]
  show ?case
  proof (cases r1)
    case (Inl e)
    then have "tr = tr1" using Cons.prems b by simp
    then show ?thesis using c by (auto intro: prefix_prefix)
  next
    case (Inr st1)
    obtain tr2 where l: "message_loop env da tail (index + 1) msgs st1 = (tr2, r)"
      and tr: "tr = tr1 @ tr2"
      using Cons.prems b Inr by (auto split: prod.splits)
    note d = loop_body_done[OF b[unfolded Inr]]
    from Cons.IH[OF l] have ih: "distinct (lookups tr2)"
      "set (lookups tr2) \<subseteq> personEmail ` set msgs - dict_keys (people st1)"
      "prefix (probes tr2) (concat (map urls_of msgs))"
      by simp_all
    have "distinct (lookups tr)"
      using tr c(1,2) ih(1,2) d(1) by (auto simp: lookups_append)
    moreover have "set (lookups tr) \<subseteq> personEmail ` set (msg # msgs) - dict_keys (people st)"
      using tr c(1) ih(2) d(1) by (auto simp: lookups_append)
    moreover have "prefix (probes tr) (concat (map urls_of (msg # msgs)))"
      using tr d(3) ih(3) by (simp add: probes_append)
    ultimately show ?thesis by simp
  qed
qed

lemma message_loop_done:
  "message_loop env da tail index msgs st = (tr, Inr st') \<Longrightarrow>
     probes tr = concat (map urls_of msgs)
     \<and> dict_keys (attachments st') = dict_keys (attachments st) \<union> set (concat (map urls_of msgs))
     \<and> (distinct (map fst (attachments st)) \<longrightarrow> distinct (map fst (attachments st')))
     \<and> dict_keys (people st') = dict_keys (people st) \<union> personEmail ` set msgs
     \<and> (distinct (map fst (people st)) \<longrightarrow> distinct (map fst (people st')))
     \<and> processed_messages st' = processed_messages st @ msgs"
proof (induction msgs arbitrary: index st tr)
  case Nil
  then show ?case by (simp split: option.splits)
next
  case (Cons msg msgs)
  from Cons.prems obtain tr1 st1 tr2 where
    b: "loop_body env da index msg st = (tr1, Inr st1)"
    and l: "message_loop env da tail (index + 1) msgs st1 = (tr2, Inr st')"
    and tr: "tr = tr1 @ tr2"
    by (auto split: prod.splits sum.splits)
  note d = loop_body_done[OF b]
  from Cons.IH[OF l] show ?case
    using tr d(1-6) by (auto simp: probes_append)
qed

lemma message_loop_flags:
  "message_loop env da tail index msgs st = (tr, Inr st') \<Longrightarrow>
     distinct (repeat_indeces st) \<Longrightarrow> \<forall>i\<in>set (repeat_indeces st). 0 < i \<and> i < index \<Longrightarrow>
     distinct (repeat_indeces st')
     \<and> (\<forall>i\<in>set (repeat_indeces st'). 0 < i \<and> i < index + int (length msgs))"
proof (induction msgs arbitrary: index st tr)
  case Nil
  then show ?case by (simp split: option.splits)
next
  case (Cons msg msgs)
  from Cons.prems(1) obtain tr1 st1 tr2 where
    b: "loop_body env da index msg st = (tr1, Inr st1)"
    and l: "message_loop env da tail (index + 1) msgs st1 = (tr2, Inr st')"
    by (auto split: prod.splits sum.splits)
  note d = loop_body_done[OF b]
  have fresh: "index \<notin> set (repeat_indeces st)"
    using Cons.prems(3) by auto
  have d1: "distinct (repeat_indeces st1)"
    using d(9)[OF fresh Cons.prems(2)] .
  have b1: "\<forall>i\<in>set (repeat_indeces st1). 0 < i \<and> i < index + 1"
  proof (cases "index \<le> 0")
    case True
    then show ?thesis using d(8) Cons.prems(3) by auto
  next
    case False
    have "i = index \<or> i \<in> set (repeat_indeces st)" if "i \<in> set (repeat_indeces st1)" for i
      using that d(7) by blast
    then show ?thesis using False Cons.prems(3) by fastforce
  qed
  from Cons.IH[OF l d1 b1] show ?case by (simp add: add.assoc)
qed

lemma first_message_lookup:
  assumes "loop_body env da 0 msg initial_state = (tr, r)"
  shows "lookups tr = [personEmail msg]"
proof -
  have n: "note_message 0 msg initial_state
             = Inr (initial_state\<lparr>processed_messages := [msg],
                      previous_person_email := personEmail msg,
                      previous_msg_datetime := Some (created msg)\<rparr>)"
    by (simp add: note_message_def initial_state_def)
  obtain tr1 r1 where p: "resolve_person env da msg (initial_state\<lparr>processed_messages := [msg],
                      previous_person_email := personEmail msg,
                      previous_msg_datetime := Some (created msg)\<rparr>) = (tr1, r1)"
    by (cases "resolve_person env da msg (initial_state\<lparr>processed_messages := [msg],
                      previous_person_email := personEmail msg,
                      previous_msg_datetime := Some (created msg)\<rparr>)")
  have tr1: "tr1 = [GetPerson (personEmail msg) (personId msg)]"
    using resolve_person_calls[OF p] by (simp add: initial_state_def)
  from loop_body_trace[OF assms] obtain t1 t2 where
    t: "tr = t1 @ t2" "lookups t2 = []" by blast
  have "\<exists>t2. tr = tr1 @ t2 \<and> lookups t2 = []"
  proof (cases r1)
    case (Inl e)
    then have "tr = tr1" using assms n p by (simp add: loop_body_def)
    then show ?thesis by simp
  next
    case (Inr st2)
    show ?thesis
    proof (cases "urls_of msg = []")
      case True
      then have "tr = tr1" using assms n p Inr
        by (auto simp: loop_body_def urls_of_def split: option.splits)
      then show ?thesis by simp
    next
      case False
      obtain tr2 r2 where q: "probe_files env (urls_of msg) (attachments st2) = (tr2, r2)"
        by (cases "probe_files env (urls_of msg) (attachments st2)")
      have "tr = tr1 @ tr2" using assms n p Inr False q
        by (cases r2) (auto simp: loop_body_def urls_of_def split: option.splits)
      then show ?thesis using probe_files_calls(1)[OF q] by blast
    qed
  qed
  then show ?thesis using tr1 by (auto simp: lookups_append)
qed

lemma singleton_list: "distinct xs \<Longrightarrow> set xs \<subseteq> {e} \<Longrightarrow> xs \<noteq> [] \<Longrightarrow> xs = [e]"
  by (cases xs; cases "tl xs") auto

lemma keys_initial: "dict_keys (people initial_state) = {}" "dict_keys (attachments initial_state) = {}"
  "distinct (map fst (people initial_state))" "distinct (map fst (attachments initial_state))"
  "repeat_indeces initial_state = []" "processed_messages initial_state = []"
  by (simp_all add: initial_state_def dict_keys_def)

subsection \<open>The handler and the archive file\<close>

lemma setup_with_created:
  assumes "snd (setup_with env self opts hf fs) = None"
  shows "isdir (fst (setup_with env self opts hf fs)) (archive_folder_name self)"
proof -
  have "setup_with env self opts hf fs = (fst (setup_with env self opts hf fs), None)"
    using assms by (simp add: prod_eq_iff)
  then show ?thesis
    unfolding setup_with_def by (rule setup_folder_created)
qed

lemma compress_folder_started:
  assumes "\<not> isdir fs (folder @ ''.tgz'')"
  shows "compress_folder env folder fs =
           (fs(folder @ ''.tgz'' \<mapsto> RegFile (fst (tar_gz env folder (fs folder)))),
            (case fs folder of
               None \<Rightarrow> Some FileNotFoundError
             | Some n \<Rightarrow> snd (tar_gz env folder (fs folder))))"
  using assms by (auto simp: compress_folder_def isdir_def split: option.splits node.splits)

subsection \<open>The download pool\<close>

lemma first_failure_None: "first_failure rs = None \<longleftrightarrow> (\<forall>r\<in>set rs. snd r = None)"
  by (induction rs) (auto split: option.splits)

lemma download_files_fails_iff:
  assumes "0 < workers"
  shows "snd (download_files env folder folder_name links workers fs) \<noteq> None
         \<longleftrightarrow> (\<exists>r\<in>set (snd (run_tasks env folder folder_name links fs)). snd r \<noteq> None)"
proof -
  obtain fs1 results where t: "run_tasks env folder folder_name links fs = (fs1, results)"
    by (cases "run_tasks env folder folder_name links fs")
  have "snd (download_files env folder folder_name links workers fs)
          = first_failure (sort_key (\<lambda>r. completion_rank env (fst r)) results)"
    using assms t by (simp add: download_files_def)
  moreover have "first_failure (sort_key (\<lambda>r. completion_rank env (fst r)) results) \<noteq> None
                 \<longleftrightarrow> (\<exists>r\<in>set results. snd r \<noteq> None)"
    by (simp add: first_failure_None)
  ultimately show ?thesis using t by simp
qed

lemma download_file_status_unread:
  assumes "http_get env url = Inr r" and "http_get env' url = Inr (r\<lparr>get_status := st\<rparr>)"
  shows "download_file env' folder folder_name url fname fs
           = download_file env folder folder_name url fname fs"
  using assms by (simp add: download_file_def split: sum.splits)

subsection \<open>The flags of the message pass, exactly\<close>

lemma timedelta_seconds_within_day:
  assumes "0 \<le> d" and "d < 86400 * 1000000"
  shows "timedelta_seconds d < 60 \<longleftrightarrow> d < 60 * 1000000"
proof -
  have "0 \<le> d div 1000000" using assms(1) by simp
  moreover have "d div 1000000 < 86400" using assms(2) by simp
  ultimately have "timedelta_seconds d = d div 1000000"
    by (simp add: timedelta_seconds_def)
  then show ?thesis by auto
qed

lemma note_message_previous:
  assumes "note_message index msg st = Inr st1"
  shows "previous_person_email st1 = personEmail msg"
    and "previous_msg_datetime st1 = Some (created msg)"
    and "repeat_indeces st1 = repeat_indeces st @
           (if 0 < index \<and> personEmail msg = previous_person_email st
               \<and> (\<exists>prev. previous_msg_datetime st = Some prev
                      \<and> timedelta_seconds (prev - created msg) < 60)
            then [index] else [])"
  using assms
  by (auto simp: note_message_def Let_def split: if_splits option.splits)

lemma note_avatar_previous:
  "previous_person_email (note_avatar env da msg w st) = previous_person_email st"
  "previous_msg_datetime (note_avatar env da msg w st) = previous_msg_datetime st"
  by (auto simp: note_avatar_def split: option.splits)

lemma resolve_person_previous:
  assumes "resolve_person env da msg st = (tr, Inr st1)"
  shows "previous_person_email st1 = previous_person_email st"
    and "previous_msg_datetime st1 = previous_msg_datetime st"
  using resolve_person_state[OF assms]
  by (auto simp: cache_person_def note_avatar_previous)

lemma loop_body_previous:
  assumes "loop_body env da index msg st = (tr, Inr st')"
  shows "previous_person_email st' = personEmail msg"
    and "previous_msg_datetime st' = Some (created msg)"
    and "repeat_indeces st' = repeat_indeces st @
           (if 0 < index \<and> personEmail msg = previous_person_email st
               \<and> (\<exists>prev. previous_msg_datetime st = Some prev
                      \<and> timedelta_seconds (prev - created msg) < 60)
            then [index] else [])"
proof -
  from assms obtain st1 tr1 st2 where
    n: "note_message index msg st = Inr st1"
    and p: "resolve_person env da msg st1 = (tr1, Inr st2)"
    and f: "st' = st2 \<or> (\<exists>att. st' = st2\<lparr>attachments := att\<rparr>)"
    by (auto simp: loop_body_def split: sum.splits prod.splits option.splits if_splits)
  have e: "previous_person_email st' = previous_person_email st2"
    "previous_msg_datetime st' = previous_msg_datetime st2"
    "repeat_indeces st' = repeat_indeces st2"
    using f by auto
  show "previous_person_email st' = personEmail msg"
    using e(1) resolve_person_previous(1)[OF p] note_message_previous(1)[OF n] by simp
  show "previous_msg_datetime st' = Some (created msg)"
    using e(2) resolve_person_previous(2)[OF p] note_message_previous(2)[OF n] by simp
  show "repeat_indeces st' = repeat_indeces st @
           (if 0 < index \<and> personEmail msg = previous_person_email st
               \<and> (\<exists>prev. previous_msg_datetime st = Some prev
                      \<and> timedelta_seconds (prev - created msg) < 60)
            then [index] else [])"
    using e(3) resolve_person_fields(5)[OF p] note_message_previous(3)[OF n] by simp
qed

lemma message_loop_repeat:
  assumes "message_loop env da tail (int (length pre)) msgs st = (tr, Inr st')"
    and "pre \<noteq> [] \<Longrightarrow> previous_person_email st = personEmail (last pre)
                        \<and> previous_msg_datetime st = Some (created (last pre))"
  shows "repeat_indeces st' = repeat_indeces st @
           map int (filter (repeats_previous (pre @ msgs))
                      [length pre..<length pre + length msgs])"
  using assms
proof (induction msgs arbitrary: pre st tr)
  case Nil
  then show ?case by (simp split: option.splits)
next
  case (Cons msg msgs)
  from Cons.prems(1) obtain tr1 st1 tr2 where
    b: "loop_body env da (int (length pre)) msg st = (tr1, Inr st1)"
    and l: "message_loop env da tail (int (length pre) + 1) msgs st1 = (tr2, Inr st')"
    by (auto split: prod.splits sum.splits)
  note d = loop_body_previous[OF b]
  have l': "message_loop env da tail (int (length (pre @ [msg]))) msgs st1 = (tr2, Inr st')"
    using l by (simp add: add.commute)
  have ih: "repeat_indeces st' = repeat_indeces st1 @
           map int (filter (repeats_previous ((pre @ [msg]) @ msgs))
                      [length (pre @ [msg])..<length (pre @ [msg]) + length msgs])"
    by (rule Cons.IH[OF l']) (simp add: d(1,2))
  have here: "(0 < int (length pre) \<and> personEmail msg = previous_person_email st
               \<and> (\<exists>prev. previous_msg_datetime st = Some prev
                      \<and> timedelta_seconds (prev - created msg) < 60))
              \<longleftrightarrow> repeats_previous (pre @ msg # msgs) (length pre)"
  proof (cases "pre = []")
    case True
    then show ?thesis by (simp add: repeats_previous_def)
  next
    case False
    then have "(pre @ msg # msgs) ! (length pre - 1) = last pre"
      by (simp add: nth_append last_conv_nth)
    then show ?thesis
      using False Cons.prems(2) by (auto simp: repeats_previous_def nth_append)
  qed
  have split: "[length pre..<length pre + length (msg # msgs)]
                 = length pre # [length (pre @ [msg])..<length (pre @ [msg]) + length msgs]"
    by (simp add: upt_conv_Cons del: upt_Suc)
  show ?case
    unfolding split using ih d(3) here by simp
qed

lemma repeat_indeces_exact:
  assumes "snd (message_loop env da tail 0 msgs initial_state) = Inr st"
  shows "repeat_indeces st = map int (filter (repeats_previous msgs) [0..<length msgs])"
proof -
  obtain tr where l: "message_loop env da tail (int (length ([]::message list))) msgs initial_state = (tr, Inr st)"
    using assms by (cases "message_loop env da tail 0 msgs initial_state") simp
  from message_loop_repeat[OF l] show ?thesis
    by (simp add: initial_state_def)
qed

lemma repeats_previous_within_day:
  assumes "0 < i" and "i < length msgs"
    and "created (msgs ! i) \<le> created (msgs ! (i - 1))"
    and "created (msgs ! (i - 1)) - created (msgs ! i) < 86400 * 1000000"
  shows "repeats_previous msgs i \<longleftrightarrow>
           personEmail (msgs ! i) = personEmail (msgs ! (i - 1))
           \<and> \<bar>created (msgs ! (i - 1)) - created (msgs ! i)\<bar> < 60 * 1000000"
proof -
  have "timedelta_seconds (created (msgs ! (i - 1)) - created (msgs ! i)) < 60
        \<longleftrightarrow> created (msgs ! (i - 1)) - created (msgs ! i) < 60 * 1000000"
    using assms(3,4) by (intro timedelta_seconds_within_day) simp_all
  then show ?thesis
    using assms by (simp add: repeats_previous_def)
qed

subsection \<open>What the search for the file name finds\<close>

lemma match_literal_Some:
  "match_literal ps s = Some r \<longleftrightarrow>
     (\<exists>kw. s = kw @ r \<and> list_all2 (\<lambda>c p. c = fst p \<or> c = snd p) kw ps)"
proof (induction ps s rule: match_literal.induct)
  case (1 s)
  then show ?case by auto
next
  case (2 p ps)
  then show ?case by (auto simp: list_all2_Cons2)
next
  case (3 p ps c cs)
  show ?case
  proof (cases "c = fst p \<or> c = snd p")
    case True
    have "(\<exists>kw. c # cs = kw @ r \<and> list_all2 (\<lambda>c p. c = fst p \<or> c = snd p) kw (p # ps))
          \<longleftrightarrow> (\<exists>kw'. cs = kw' @ r \<and> list_all2 (\<lambda>c p. c = fst p \<or> c = snd p) kw' ps)"
      using True by (auto simp: list_all2_Cons2 Cons_eq_append_conv)
    then show ?thesis using 3 True by simp
  next
    case False
    then show ?thesis by (auto simp: list_all2_Cons2 Cons_eq_append_conv)
  qed
qed

lemma until_quote_Some:
  "until_quote s \<noteq> None \<longleftrightarrow> (\<exists>g rest. s = g @ CHR 0x22 # rest \<and> CHR 0x0A \<notin> set g)"
proof
  show "until_quote s \<noteq> None \<Longrightarrow> \<exists>g rest. s = g @ CHR 0x22 # rest \<and> CHR 0x0A \<notin> set g"
  proof (induction s)
    case Nil
    then show ?case by simp
  next
    case (Cons c cs)
    show ?case
    proof (cases "c = CHR 0x22")
      case True
      then have "c # cs = [] @ CHR 0x22 # cs \<and> CHR 0x0A \<notin> set []" by simp
      then show ?thesis by blast
    next
      case False
      then have n: "c \<noteq> CHR 0x0A" and u: "until_quote cs \<noteq> None"
        using Cons.prems by (auto split: if_splits)
      from Cons.IH[OF u] obtain g rest where "cs = g @ CHR 0x22 # rest" "CHR 0x0A \<notin> set g"
        by blast
      then have "c # cs = (c # g) @ CHR 0x22 # rest \<and> CHR 0x0A \<notin> set (c # g)"
        using n by simp
      then show ?thesis by blast
    qed
  qed
next
  assume "\<exists>g rest. s = g @ CHR 0x22 # rest \<and> CHR 0x0A \<notin> set g"
  then obtain g rest where s: "s = g @ CHR 0x22 # rest" and g: "CHR 0x0A \<notin> set g" by blast
  show "until_quote s \<noteq> None"
    unfolding s using g by (induction g) auto
qed

lemma lazy_group_Some:
  "lazy_group s \<noteq> None \<longleftrightarrow>
     (\<exists>name rest. s = name @ CHR 0x22 # rest \<and> name \<noteq> [] \<and> CHR 0x0A \<notin> set name)"
proof (cases s)
  case Nil
  then show ?thesis by simp
next
  case (Cons c cs)
  have "lazy_group s \<noteq> None \<longleftrightarrow> c \<noteq> CHR 0x0A \<and> until_quote cs \<noteq> None"
    using Cons by simp
  also have "\<dots> \<longleftrightarrow> c \<noteq> CHR 0x0A \<and> (\<exists>g rest. cs = g @ CHR 0x22 # rest \<and> CHR 0x0A \<notin> set g)"
    by (simp only: until_quote_Some)
  also have "\<dots> \<longleftrightarrow> (\<exists>name rest. s = name @ CHR 0x22 # rest \<and> name \<noteq> [] \<and> CHR 0x0A \<notin> set name)"
  proof
    assume "c \<noteq> CHR 0x0A \<and> (\<exists>g rest. cs = g @ CHR 0x22 # rest \<and> CHR 0x0A \<notin> set g)"
    then obtain g rest where "c \<noteq> CHR 0x0A" "cs = g @ CHR 0x22 # rest" "CHR 0x0A \<notin> set g"
      by blast
    then have "s = (c # g) @ CHR 0x22 # rest \<and> c # g \<noteq> [] \<and> CHR 0x0A \<notin> set (c # g)"
      using Cons by simp
    then show "\<exists>name rest. s = name @ CHR 0x22 # rest \<and> name \<noteq> [] \<and> CHR 0x0A \<notin> set name"
      by blast
  next
    assume "\<exists>name rest. s = name @ CHR 0x22 # rest \<and> name \<noteq> [] \<and> CHR 0x0A \<notin> set name"
    then obtain name rest where
      s: "s = name @ CHR 0x22 # rest" and ne: "name \<noteq> []" and nl: "CHR 0x0A \<notin> set name"
      by blast
    obtain d g where name: "name = d # g" using ne by (cases name) auto
    have "c = d" "cs = g @ CHR 0x22 # rest" using s Cons name by simp_all
    then show "c \<noteq> CHR 0x0A \<and> (\<exists>g rest. cs = g @ CHR 0x22 # rest \<and> CHR 0x0A \<notin> set g)"
      using nl name by auto
  qed
  finally show ?thesis .
qed

lemma match_here_Some:
  "match_here s \<noteq> None \<longleftrightarrow>
     (\<exists>kw name rest. s = kw @ name @ CHR 0x22 # rest
        \<and> list_all2 (\<lambda>c p. c = fst p \<or> c = snd p) kw filename_pat
        \<and> name \<noteq> [] \<and> CHR 0x0A \<notin> set name)"
proof
  assume "match_here s \<noteq> None"
  then obtain r where m: "match_literal filename_pat s = Some r" and l: "lazy_group r \<noteq> None"
    by (auto simp: match_here_def split: option.splits)
  from m obtain kw where "s = kw @ r" "list_all2 (\<lambda>c p. c = fst p \<or> c = snd p) kw filename_pat"
    by (auto simp: match_literal_Some)
  moreover from l obtain name rest where
    "r = name @ CHR 0x22 # rest" "name \<noteq> []" "CHR 0x0A \<notin> set name"
    unfolding lazy_group_Some by blast
  ultimately show "\<exists>kw name rest. s = kw @ name @ CHR 0x22 # rest
        \<and> list_all2 (\<lambda>c p. c = fst p \<or> c = snd p) kw filename_pat
        \<and> name \<noteq> [] \<and> CHR 0x0A \<notin> set name"
    by blast
next
  assume "\<exists>kw name rest. s = kw @ name @ CHR 0x22 # rest
        \<and> list_all2 (\<lambda>c p. c = fst p \<or> c = snd p) kw filename_pat
        \<and> name \<noteq> [] \<and> CHR 0x0A \<notin> set name"
  then obtain kw name rest where
    s: "s = kw @ (name @ CHR 0x22 # rest)"
    and kw: "list_all2 (\<lambda>c p. c = fst p \<or> c = snd p) kw filename_pat"
    and n: "name \<noteq> []" "CHR 0x0A \<notin> set name"
    by auto
  have "match_literal filename_pat s = Some (name @ CHR 0x22 # rest)"
    using s kw by (auto simp: match_literal_Some)
  moreover have "lazy_group (name @ CHR 0x22 # rest) \<noteq> None"
    using n by (subst lazy_group_Some) blast
  ultimately show "match_here s \<noteq> None"
    by (simp add: match_here_def)
qed

lemma filename_search_Some:
  "filename_search s \<noteq> None \<longleftrightarrow> (\<exists>pre suf. s = pre @ suf \<and> match_here suf \<noteq> None)"
proof (induction s)
  case Nil
  then show ?case by simp
next
  case (Cons c cs)
  have "filename_search (c # cs) \<noteq> None
        \<longleftrightarrow> match_here (c # cs) \<noteq> None \<or> filename_search cs \<noteq> None"
    by (simp split: option.splits)
  also have "\<dots> \<longleftrightarrow> match_here (c # cs) \<noteq> None
                 \<or> (\<exists>pre suf. cs = pre @ suf \<and> match_here suf \<noteq> None)"
    using Cons.IH by simp
  also have "\<dots> \<longleftrightarrow> (\<exists>pre suf. c # cs = pre @ suf \<and> match_here suf \<noteq> None)"
  proof
    assume "match_here (c # cs) \<noteq> None
                 \<or> (\<exists>pre suf. cs = pre @ suf \<and> match_here suf \<noteq> None)"
    then show "\<exists>pre suf. c # cs = pre @ suf \<and> match_here suf \<noteq> None"
    proof
      assume "match_here (c # cs) \<noteq> None"
      then have "c # cs = [] @ (c # cs) \<and> match_here (c # cs) \<noteq> None" by simp
      then show ?thesis by blast
    next
      assume "\<exists>pre suf. cs = pre @ suf \<and> match_here suf \<noteq> None"
      then obtain pre suf where "cs = pre @ suf" "match_here suf \<noteq> None" by blast
      then have "c # cs = (c # pre) @ suf \<and> match_here suf \<noteq> None" by simp
      then show ?thesis by blast
    qed
  next
    assume "\<exists>pre suf. c # cs = pre @ suf \<and> match_here suf \<noteq> None"
    then obtain pre suf where p: "c # cs = pre @ suf" and m: "match_here suf \<noteq> None" by blast
    show "match_here (c # cs) \<noteq> None
                 \<or> (\<exists>pre suf. cs = pre @ suf \<and> match_here suf \<noteq> None)"
    proof (cases pre)
      case Nil
      then show ?thesis using p m by simp
    next
      case (Cons d pre')
      then have "cs = pre' @ suf" using p by simp
      then show ?thesis using m by blast
    qed
  qed
  finally show ?case .
qed

lemma filename_search_None_iff:
  "filename_search s = None \<longleftrightarrow>
     \<not> (\<exists>pre kw name rest. s = pre @ kw @ name @ CHR 0x22 # rest
          \<and> list_all2 (\<lambda>c p. c = fst p \<or> c = snd p) kw filename_pat
          \<and> name \<noteq> [] \<and> CHR 0x0A \<notin> set name)"
proof -
  have "filename_search s \<noteq> None \<longleftrightarrow>
     (\<exists>pre kw name rest. s = pre @ kw @ name @ CHR 0x22 # rest
          \<and> list_all2 (\<lambda>c p. c = fst p \<or> c = snd p) kw filename_pat
          \<and> name \<noteq> [] \<and> CHR 0x0A \<notin> set name)"
    unfolding filename_search_Some match_here_Some by blast
  then show ?thesis by blast
qed

subsection \<open>A failure while the folder is set up\<close>

lemma setup_failure_keeps_folder:
  "snd (snd (archive_room ((demo_env one_attachment)\<lparr>static_asset := (\<lambda>n. None)\<rparr>) ''r1''
               True True True no_options Map.empty)) = Inl FileNotFoundError
   \<and> fst (snd (archive_room ((demo_env one_attachment)\<lparr>static_asset := (\<lambda>n. None)\<rparr>) ''r1''
                 True True True no_options Map.empty)) ''Team_r1''
       = Some (Directory [(''attachments'', Directory []), (''avatars'', Directory [])])"
  by code_simp

section \<open>The claims\<close>

subsection \<open>C1: the continuation flag\<close>

text \<open>
  Claim C1. The message at position \<open>i > 0\<close> is flagged as a continuation exactly when
  it has the sender of the previous message and the absolute gap between the two
  creation times is strictly below 60 seconds. The loop compares the attribute
  \<^verbatim>\<open>seconds\<close> of the difference, which drops whole days and is large for a negative
  difference: two messages of one sender that lie one day and ten seconds apart are
  flagged, and two messages ten seconds apart that arrive oldest first are not.
  What the loop flags in general is \<open>repeat_indeces_exact\<close>; where every message is
  at most as new as the one before it and less than a day older, that is the claim
  (\<open>repeats_previous_within_day\<close>).
\<close>

theorem continuation_flag_drops_days:
  "map_sum id repeat_indeces
     (snd (message_loop (demo_env []) True None 0 day_apart initial_state)) = Inr [1]
   \<and> map personEmail day_apart = [''a@x'', ''a@x'']
   \<and> \<bar>created (day_apart ! 0) - created (day_apart ! 1)\<bar> = 86410 * 1000000
   \<and> map_sum id repeat_indeces
        (snd (message_loop (demo_env []) True None 0 oldest_first initial_state)) = Inr []
   \<and> map personEmail oldest_first = [''a@x'', ''a@x'']
   \<and> \<bar>created (oldest_first ! 0) - created (oldest_first ! 1)\<bar> = 10 * 1000000"
  by code_simp

subsection \<open>C2: probing the attachments\<close>

text \<open>
  Claim C2 as stated: \<^verbatim>\<open>file_details\<close> is invoked at most once per unique URL, also
  when the URL is in the file lists of several messages. Two messages with the same
  URL refute it: the URL is probed twice.
\<close>

theorem file_details_repeated_counterexample:
  "\<not> count_list
       (probes (fst (message_loop (demo_env []) True None 0 same_sender initial_state)))
       ''u'' \<le> 1"
  by code_simp

text \<open>
  Claim C2 as amended: \<^verbatim>\<open>file_details\<close> is invoked once for every occurrence of a URL
  in the file lists of the messages, in message order, up to the point where the
  pass raises; when the pass completes, the probed URLs are exactly the
  occurrences, and the dictionary of attachments has one entry for each distinct
  URL.
\<close>

theorem file_details_per_occurrence:
  "prefix (probes (fst (message_loop env da tail 0 msgs initial_state)))
          (concat (map urls_of msgs))
   \<and> (\<forall>st. snd (message_loop env da tail 0 msgs initial_state) = Inr st \<longrightarrow>
          probes (fst (message_loop env da tail 0 msgs initial_state)) = concat (map urls_of msgs)
          \<and> distinct (map fst (attachments st))
          \<and> dict_keys (attachments st) = set (concat (map urls_of msgs)))"
proof -
  obtain tr r where l: "message_loop env da tail 0 msgs initial_state = (tr, r)"
    by (cases "message_loop env da tail 0 msgs initial_state")
  have a: "prefix (probes tr) (concat (map urls_of msgs))"
    using message_loop_calls[OF l] by simp
  have b: "probes tr = concat (map urls_of msgs) \<and> distinct (map fst (attachments st))
           \<and> dict_keys (attachments st) = set (concat (map urls_of msgs))"
    if "r = Inr st" for st
    using message_loop_done[OF l[unfolded that]] by (simp add: keys_initial)
  show ?thesis using l a b by simp
qed

text \<open>The amended claim on the two messages with the same URL.\<close>

theorem file_details_per_occurrence_witness:
  "snd (message_loop (demo_env []) True None 0 same_sender initial_state)
     = Inr (projr (snd (message_loop (demo_env []) True None 0 same_sender initial_state)))
   \<and> probes (fst (message_loop (demo_env []) True None 0 same_sender initial_state))
       = concat (map urls_of same_sender)
   \<and> concat (map urls_of same_sender) = [''u'', ''u'']
   \<and> distinct (map fst (attachments
        (projr (snd (message_loop (demo_env []) True None 0 same_sender initial_state)))))"
proof -
  have "\<not> isl (snd (message_loop (demo_env []) True None 0 same_sender initial_state))"
    by code_simp
  then have h: "snd (message_loop (demo_env []) True None 0 same_sender initial_state)
     = Inr (projr (snd (message_loop (demo_env []) True None 0 same_sender initial_state)))"
    by simp
  have u: "concat (map urls_of same_sender) = [''u'', ''u'']"
    by code_simp
  show ?thesis
    using h u file_details_per_occurrence[of "demo_env []" True None same_sender] by metis
qed

subsection \<open>C3: a failing run leaves no folder\<close>

text \<open>
  Claim C3. When the folder has been set up and \<^verbatim>\<open>_archive\<close> or
  \<^verbatim>\<open>_compress_folder\<close> raises, \<^verbatim>\<open>archive_room\<close> raises that same exception, the
  archive folder is gone afterwards, and nothing else in the working directory is
  changed by the handler. The folder is set up before the \<^verbatim>\<open>try\<close> statement: an
  exception of \<^verbatim>\<open>_setup_folder\<close> itself is outside the claim and leaves what was
  made so far (\<open>setup_failure_keeps_folder\<close>).
\<close>

theorem archive_room_failure_tears_down:
  assumes g: "snd (gather_room_information env room_id) = Inr self"
    and su: "snd (setup_with env self opts hf fs) = None"
    and body: "snd (snd (try_body env self opts tf hf jf (fst (setup_with env self opts hf fs))))
                 = Some e"
  shows "snd (snd (archive_room env room_id tf hf jf opts fs)) = Inl e
         \<and> fst (snd (archive_room env room_id tf hf jf opts fs)) (archive_folder_name self) = None
         \<and> (\<forall>p. p \<noteq> archive_folder_name self \<longrightarrow>
                fst (snd (archive_room env room_id tf hf jf opts fs)) p
                  = fst (snd (try_body env self opts tf hf jf
                                (fst (setup_with env self opts hf fs)))) p)"
proof -
  obtain tr0 where g': "gather_room_information env room_id = (tr0, Inr self)"
    using g by (cases "gather_room_information env room_id") simp
  obtain fs1 where su': "setup_with env self opts hf fs = (fs1, None)"
    using su by (cases "setup_with env self opts hf fs") simp
  obtain tr fs2 where body': "try_body env self opts tf hf jf fs1 = (tr, fs2, Some e)"
    using body su' by (cases "try_body env self opts tf hf jf fs1") auto
  have "isdir fs1 (archive_folder_name self)"
    using setup_with_created[OF su] su' by simp
  then have "isdir fs2 (archive_folder_name self)"
    using isdir_try_body[OF body'] by simp
  then have gone: "tear_down_folder (archive_folder_name self) fs2 (archive_folder_name self) = None"
    by (rule tear_down_folder_removes)
  have "archive_room env room_id tf hf jf opts fs
           = (tr0 @ tr, tear_down_folder (archive_folder_name self) fs2, Inl e)"
    using g' su' body' by (simp add: archive_room_def)
  then show ?thesis
    using gone su' body' by (simp add: tear_down_folder_frame)
qed

text \<open>A run whose downloads fail in the network.\<close>

theorem archive_room_failure_tears_down_witness:
  "snd (gather_room_information env_get_fails ''r1'') = Inr (demo_archiver one_attachment)
   \<and> snd (setup_with env_get_fails (demo_archiver one_attachment) no_options True Map.empty) = None
   \<and> snd (snd (try_body env_get_fails (demo_archiver one_attachment) no_options True True True
                 (fst (setup_with env_get_fails (demo_archiver one_attachment) no_options True
                         Map.empty))))
       = Some RequestException
   \<and> snd (snd (archive_room env_get_fails ''r1'' True True True no_options Map.empty))
       = Inl RequestException
   \<and> fst (snd (archive_room env_get_fails ''r1'' True True True no_options Map.empty)) ''Team_r1''
       = None"
proof -
  have g: "snd (gather_room_information env_get_fails ''r1'') = Inr (demo_archiver one_attachment)"
    by code_simp
  have su: "snd (setup_with env_get_fails (demo_archiver one_attachment) no_options True Map.empty)
              = None"
    by code_simp
  have body: "snd (snd (try_body env_get_fails (demo_archiver one_attachment) no_options True True
                True (fst (setup_with env_get_fails (demo_archiver one_attachment) no_options True
                             Map.empty))))
       = Some RequestException"
    by code_simp
  have n: "archive_folder_name (demo_archiver one_attachment) = ''Team_r1''"
    by (simp add: demo_archiver_def)
  show ?thesis
    using g su body n archive_room_failure_tears_down[OF g su body] by simp
qed

subsection \<open>C4: reverse order\<close>

text \<open>
  Claim C4. With reverse ordering the output sequence is the reverse of the forward
  sequence and every flag \<open>i\<close> becomes \<open>N - i\<close>, for \<open>N\<close> messages. The flags stay
  as many and stay distinct, every flag lies strictly between \<open>0\<close> and \<open>N\<close> before
  and after, and the reversed sequence holds at the new flag and at the position
  before it the two messages of the forward pair \<open>i - 1\<close>, \<open>i\<close>.
\<close>

theorem reverse_order_mirrors_flags:
  assumes "snd (message_loop env da tail 0 msgs initial_state) = Inr st"
  shows "snd (reorder False st) = msgs \<and> snd (reorder True st) = rev msgs
    \<and> fst (reorder True st) = map (\<lambda>i. int (length msgs) - i) (fst (reorder False st))
    \<and> length (fst (reorder True st)) = length (fst (reorder False st))
    \<and> distinct (fst (reorder False st)) \<and> distinct (fst (reorder True st))
    \<and> (\<forall>i\<in>set (fst (reorder False st)).
          0 < i \<and> i < int (length msgs)
          \<and> int (length msgs) - i \<in> set (fst (reorder True st))
          \<and> 0 < int (length msgs) - i \<and> int (length msgs) - i < int (length msgs)
          \<and> rev msgs ! nat (int (length msgs) - i) = msgs ! nat (i - 1)
          \<and> rev msgs ! nat (int (length msgs) - i - 1) = msgs ! nat i)"
proof -
  obtain tr where l: "message_loop env da tail 0 msgs initial_state = (tr, Inr st)"
    using assms by (cases "message_loop env da tail 0 msgs initial_state") simp
  have pm: "processed_messages st = msgs"
    using message_loop_done[OF l] by (simp add: keys_initial)
  have fl: "distinct (repeat_indeces st)"
    "\<forall>i\<in>set (repeat_indeces st). 0 < i \<and> i < int (length msgs)"
    using message_loop_flags[OF l] by (simp_all add: keys_initial)
  have inj: "inj_on (\<lambda>i. int (length msgs) - i) (set (repeat_indeces st))"
    by (rule inj_onI) simp
  have mirror: "rev msgs ! nat (int (length msgs) - i) = msgs ! nat (i - 1)
                \<and> rev msgs ! nat (int (length msgs) - i - 1) = msgs ! nat i"
    if "0 < i" "i < int (length msgs)" for i
  proof -
    have 1: "nat (int (length msgs) - i) < length msgs" using that by linarith
    have 2: "nat (int (length msgs) - i - 1) < length msgs" using that by linarith
    have 3: "length msgs - Suc (nat (int (length msgs) - i)) = nat (i - 1)" using that by linarith
    have 4: "length msgs - Suc (nat (int (length msgs) - i - 1)) = nat i" using that by linarith
    show ?thesis using 1 2 3 4 by (simp add: rev_nth)
  qed
  show ?thesis
    using pm fl inj mirror by (simp add: reorder_def distinct_map)
qed

text \<open>Three messages with one flagged pair: the flag \<open>1\<close> becomes \<open>2\<close>.\<close>

theorem reverse_order_mirrors_flags_witness:
  "snd (message_loop (demo_env []) True None 0 three_messages initial_state)
     = Inr (projr (snd (message_loop (demo_env []) True None 0 three_messages initial_state)))
   \<and> fst (reorder False
        (projr (snd (message_loop (demo_env []) True None 0 three_messages initial_state)))) = [1]
   \<and> fst (reorder True
        (projr (snd (message_loop (demo_env []) True None 0 three_messages initial_state)))) = [2]
   \<and> snd (reorder True
        (projr (snd (message_loop (demo_env []) True None 0 three_messages initial_state))))
       = rev three_messages"
proof -
  have "\<not> isl (snd (message_loop (demo_env []) True None 0 three_messages initial_state))"
    by code_simp
  then have h: "snd (message_loop (demo_env []) True None 0 three_messages initial_state)
     = Inr (projr (snd (message_loop (demo_env []) True None 0 three_messages initial_state)))"
    by simp
  have f: "fst (reorder False
        (projr (snd (message_loop (demo_env []) True None 0 three_messages initial_state)))) = [1]"
    by code_simp
  have n: "length three_messages = 3"
    by (simp add: three_messages_def)
  show ?thesis
    using h f n reverse_order_mirrors_flags[OF h] by simp
qed

subsection \<open>C5: looking up the senders\<close>

text \<open>
  Claim C5. In the message pass the person lookups are made for pairwise distinct
  sender emails, whatever the lookups answer (a 404 stores the placeholder, which
  is a key like any other); when the pass completes, the dictionary of people has
  one entry for each sender email; and for one or more messages that all have the
  sender \<open>e\<close> exactly one lookup is made, for \<open>e\<close>.
\<close>

theorem person_lookup_once:
  "distinct (lookups (fst (message_loop env da tail 0 msgs initial_state)))
   \<and> (\<forall>st. snd (message_loop env da tail 0 msgs initial_state) = Inr st \<longrightarrow>
          distinct (map fst (people st)) \<and> dict_keys (people st) = personEmail ` set msgs)
   \<and> (msgs \<noteq> [] \<and> (\<forall>m\<in>set msgs. personEmail m = e) \<longrightarrow>
          lookups (fst (message_loop env da tail 0 msgs initial_state)) = [e])"
proof -
  obtain tr r where l: "message_loop env da tail 0 msgs initial_state = (tr, r)"
    by (cases "message_loop env da tail 0 msgs initial_state")
  note c = message_loop_calls[OF l]
  have a: "distinct (lookups tr)" using c by simp
  have b: "distinct (map fst (people st)) \<and> dict_keys (people st) = personEmail ` set msgs"
    if "r = Inr st" for st
    using message_loop_done[OF l[unfolded that]] by (simp add: keys_initial)
  have d: "lookups tr = [e]" if ne: "msgs \<noteq> []" and same: "\<forall>m\<in>set msgs. personEmail m = e"
  proof -
    obtain msg rest where m: "msgs = msg # rest" using ne by (cases msgs) auto
    obtain tr1 r1 where lb: "loop_body env da 0 msg initial_state = (tr1, r1)"
      by (cases "loop_body env da 0 msg initial_state")
    have "\<exists>tr2. tr = tr1 @ tr2"
      using l m lb by (cases r1) (auto split: prod.splits)
    then have "lookups tr \<noteq> []"
      using first_message_lookup[OF lb] by (auto simp: lookups_append)
    moreover have "set (lookups tr) \<subseteq> {e}" using c same by auto
    ultimately show ?thesis using a by (intro singleton_list)
  qed
  show ?thesis using l a b d by simp
qed

text \<open>Two messages of one sender whose lookup answers 404: one lookup, one cached placeholder.\<close>

theorem person_lookup_once_witness:
  "same_sender \<noteq> [] \<and> map personEmail same_sender = [''a@x'', ''a@x'']
   \<and> snd (message_loop ((demo_env [])\<lparr>people_get := (\<lambda>p. Inl (ApiError 404))\<rparr>) True None 0
            same_sender initial_state)
       = Inr (projr (snd (message_loop ((demo_env [])\<lparr>people_get := (\<lambda>p. Inl (ApiError 404))\<rparr>)
                            True None 0 same_sender initial_state)))
   \<and> lookups (fst (message_loop ((demo_env [])\<lparr>people_get := (\<lambda>p. Inl (ApiError 404))\<rparr>) True None 0
                     same_sender initial_state)) = [''a@x'']
   \<and> people (projr (snd (message_loop ((demo_env [])\<lparr>people_get := (\<lambda>p. Inl (ApiError 404))\<rparr>)
                            True None 0 same_sender initial_state)))
       = [(''a@x'', UserNotFound ''id-a@x'' [''a@x''] ''Person Not Found'' None)]"
proof -
  have ne: "same_sender \<noteq> [] \<and> (\<forall>m\<in>set same_sender. personEmail m = ''a@x'')"
    by (simp add: same_sender_def demo_msg_def)
  have "\<not> isl (snd (message_loop ((demo_env [])\<lparr>people_get := (\<lambda>p. Inl (ApiError 404))\<rparr>)
                            True None 0 same_sender initial_state))"
    by code_simp
  then have h: "snd (message_loop ((demo_env [])\<lparr>people_get := (\<lambda>p. Inl (ApiError 404))\<rparr>) True None 0
            same_sender initial_state)
       = Inr (projr (snd (message_loop ((demo_env [])\<lparr>people_get := (\<lambda>p. Inl (ApiError 404))\<rparr>)
                            True None 0 same_sender initial_state)))"
    by simp
  have p: "people (projr (snd (message_loop ((demo_env [])\<lparr>people_get := (\<lambda>p. Inl (ApiError 404))\<rparr>)
                            True None 0 same_sender initial_state)))
       = [(''a@x'', UserNotFound ''id-a@x'' [''a@x''] ''Person Not Found'' None)]"
    by code_simp
  have m: "map personEmail same_sender = [''a@x'', ''a@x'']"
    by (simp add: same_sender_def demo_msg_def)
  show ?thesis
    using ne m h p
      person_lookup_once[of "(demo_env [])\<lparr>people_get := (\<lambda>p. Inl (ApiError 404))\<rparr>" True None
                            same_sender "''a@x''"]
    by blast
qed

subsection \<open>C6: a failing download\<close>

text \<open>
  Claim C6. When a single download fails, by a network error or by a non-success
  status of the body request, the whole download operation fails. A network error
  does fail it (\<open>download_files_fails_iff\<close>), but \<^verbatim>\<open>_download_file\<close> never reads
  the status: with every request answered by the status 500 the operation returns
  normally and the error page is stored as the attachment.
\<close>

theorem download_files_ignores_status:
  "map_sum id get_status (http_get env_get_500 ''u'') = Inr 500
   \<and> snd (download_files env_get_500 ''Team_r1'' ''attachments''
            [(''u'', File [] (PyInt 0) [] ''a.txt'' False)] 15 fresh_folder) = None
   \<and> fst (download_files env_get_500 ''Team_r1'' ''attachments''
            [(''u'', File [] (PyInt 0) [] ''a.txt'' False)] 15 fresh_folder) ''Team_r1''
       = Some (Directory [(''attachments'', Directory [(''a.txt'', RegFile ''Internal Server Error'')]),
                          (''avatars'', Directory [])])
   \<and> snd (snd (archive_room env_get_500 ''r1'' True True True no_options Map.empty))
       = Inr ''Team_r1.tgz''"
  by code_simp

subsection \<open>C7: a deleted attachment\<close>

text \<open>
  Claim C7. For a URL whose metadata request answers 404, \<^verbatim>\<open>file_details\<close> returns
  the record with \<open>deleted\<close> set and the other fields empty or zero, and a deleted
  remote file never aborts the run. The first part holds
  (\<open>file_details_not_found\<close>). The record has the empty file name, and with the
  download of attachments requested, which is the default, \<^verbatim>\<open>_download_file\<close> opens
  the directory \<^verbatim>\<open>attachments/\<close> itself for writing: the run raises
  \<^verbatim>\<open>IsADirectoryError\<close> and the folder is torn down. Without the download of
  attachments the same run completes.
\<close>

theorem deleted_attachment_aborts_run:
  "file_details env_head_gone ''u'' = Inr (File [] (PyInt 0) [] [] True)
   \<and> snd (snd (archive_room env_head_gone ''r1'' True True True no_options Map.empty))
       = Inl IsADirectoryError
   \<and> fst (snd (archive_room env_head_gone ''r1'' True True True no_options Map.empty)) ''Team_r1''
       = None
   \<and> fst (snd (archive_room env_head_gone ''r1'' True True True no_options Map.empty))
         ''Team_r1.tgz'' = None
   \<and> snd (snd (archive_room env_head_gone ''r1'' True True True
                 (no_options\<lparr>download_attachments := Some False\<rparr>) Map.empty))
       = Inr ''Team_r1.tgz''"
  by code_simp

subsection \<open>C8: a header without a file name\<close>

text \<open>
  Claim C8. When the metadata request succeeds (the status is neither 404 nor an
  error status) and the search for \<^verbatim>\<open>filename="..."\<close> in the content disposition
  finds nothing, \<^verbatim>\<open>file_details\<close> raises \<^verbatim>\<open>MalformedResponse\<close> with a message that
  ends in the URL, and returns no record. The search finds nothing exactly when the
  header has no occurrence of the literal, in any case of its letters, followed by
  one or more characters without a newline and a quote (\<open>filename_search_None_iff\<close>).
\<close>

theorem file_details_malformed:
  assumes "http_head env url = Inr r"
    and "status_code r \<noteq> 404"
    and "raise_for_status (status_code r) = None"
    and "filename_search (header_or (hdr_content_disposition r) []) = None"
  shows "file_details env url =
           Inl (MalformedResponse (malformed_message (header_or (hdr_content_disposition r) []) url))
         \<and> suffix url (malformed_message (header_or (hdr_content_disposition r) []) url)"
  using assms by (simp add: file_details_def suffix_malformed_message)

text \<open>The header \<^verbatim>\<open>attachment\<close> with the status 200.\<close>

theorem file_details_malformed_witness:
  "http_head env_head_nameless ''u'' = Inr nameless_head
   \<and> status_code nameless_head \<noteq> 404
   \<and> raise_for_status (status_code nameless_head) = None
   \<and> filename_search (header_or (hdr_content_disposition nameless_head) []) = None
   \<and> file_details env_head_nameless ''u''
       = Inl (MalformedResponse (malformed_message ''attachment'' ''u''))
   \<and> suffix ''u'' (malformed_message ''attachment'' ''u'')"
proof -
  have h: "http_head env_head_nameless ''u'' = Inr nameless_head"
    by (simp add: env_head_nameless_def)
  have s: "status_code nameless_head \<noteq> 404"
    by (simp add: nameless_head_def)
  have ok: "raise_for_status (status_code nameless_head) = None"
    by (simp add: nameless_head_def raise_for_status_def)
  have cd: "header_or (hdr_content_disposition nameless_head) [] = ''attachment''"
    by (simp add: nameless_head_def header_or_def)
  have none: "filename_search (header_or (hdr_content_disposition nameless_head) []) = None"
    by code_simp
  show ?thesis
    using h s ok none cd file_details_malformed[OF h s ok none] by simp
qed

subsection \<open>C9: setting up over an existing folder\<close>

text \<open>
  Claim C9. When a directory of the folder's name exists: with overwrite set,
  \<^verbatim>\<open>_setup_folder\<close> does what it does after that directory has been removed, and
  the new directory is made; with overwrite not set it raises
  \<^verbatim>\<open>FileExistsError\<close> and leaves the working directory as it was.
\<close>

theorem setup_folder_existing_directory:
  assumes "isdir fs folder"
  shows "setup_folder env folder True da dv hf fs
           = setup_folder env folder True da dv hf (rmtree fs folder)
         \<and> isdir (fst (setup_folder env folder True da dv hf fs)) folder
         \<and> setup_folder env folder False da dv hf fs = (fs, Some FileExistsError)"
proof -
  have gone: "\<not> isdir (rmtree fs folder) folder"
    by (simp add: isdir_def rmtree_def)
  have a: "setup_folder env folder True da dv hf fs
             = setup_folder env folder True da dv hf (rmtree fs folder)"
    using assms gone by (simp add: setup_folder_unfold)
  have mk: "makedirs (rmtree fs folder) folder = Inr ((rmtree fs folder)(folder \<mapsto> Directory []))"
    by (simp add: makedirs_def rmtree_def)
  obtain fs' r where run: "run_steps (setup_rest env folder da dv hf)
                             ((rmtree fs folder)(folder \<mapsto> Directory [])) = (fs', r)"
    by (cases "run_steps (setup_rest env folder da dv hf) ((rmtree fs folder)(folder \<mapsto> Directory []))")
  have "isdir fs' folder"
    using isdir_setup_rest[OF run, of folder] by (simp add: isdir_def)
  then have b: "isdir (fst (setup_folder env folder True da dv hf fs)) folder"
    using assms mk run by (simp add: setup_folder_unfold)
  have c: "setup_folder env folder False da dv hf fs = (fs, Some FileExistsError)"
    using assms by (auto simp: setup_folder_unfold makedirs_def isdir_def split: option.splits)
  show ?thesis using a b c by simp
qed

text \<open>The folder of an earlier run: its file is not in the new folder.\<close>

theorem setup_folder_existing_directory_witness:
  "isdir old_folder ''Team_r1''
   \<and> setup_folder (demo_env []) ''Team_r1'' True True True False old_folder
       = setup_folder (demo_env []) ''Team_r1'' True True True False (rmtree old_folder ''Team_r1'')
   \<and> isdir (fst (setup_folder (demo_env []) ''Team_r1'' True True True False old_folder)) ''Team_r1''
   \<and> setup_folder (demo_env []) ''Team_r1'' False True True False old_folder
       = (old_folder, Some FileExistsError)
   \<and> fst (setup_folder (demo_env []) ''Team_r1'' True True True False old_folder) ''Team_r1''
       = Some (Directory [(''attachments'', Directory []), (''avatars'', Directory [])])"
proof -
  have d: "isdir old_folder ''Team_r1''"
    by (simp add: isdir_def old_folder_def)
  have n: "fst (setup_folder (demo_env []) ''Team_r1'' True True True False old_folder) ''Team_r1''
       = Some (Directory [(''attachments'', Directory []), (''avatars'', Directory [])])"
    by code_simp
  show ?thesis
    using d n setup_folder_existing_directory[OF d, of "demo_env []" True True False] by blast
qed

subsection \<open>C10: the archive file after a failing compression\<close>

text \<open>
  Claim C10. When \<^verbatim>\<open>_archive\<close> has succeeded and \<^verbatim>\<open>_compress_folder\<close> raises after
  it has opened the archive file (nothing but a directory of that name stops the
  opening), \<^verbatim>\<open>archive_room\<close> raises that exception, the folder is gone, and the
  archive file stays in the working directory with the bytes written so far;
  \<^verbatim>\<open>_tear_down_folder\<close> never changes the entry of the archive file.
\<close>

theorem compress_failure_leaves_archive_file:
  assumes g: "snd (gather_room_information env room_id) = Inr self"
    and su: "snd (setup_with env self opts hf fs) = None"
    and ar: "snd (snd (archive_with env self opts tf hf jf (fst (setup_with env self opts hf fs))))
               = None"
    and started: "\<not> isdir (fst (snd (archive_with env self opts tf hf jf
                                        (fst (setup_with env self opts hf fs)))))
                          (archive_folder_name self @ ''.tgz'')"
    and failed: "snd (compress_folder env (archive_folder_name self)
                        (fst (snd (archive_with env self opts tf hf jf
                                     (fst (setup_with env self opts hf fs)))))) = Some e"
  shows "snd (snd (archive_room env room_id tf hf jf opts fs)) = Inl e
         \<and> fst (snd (archive_room env room_id tf hf jf opts fs)) (archive_folder_name self) = None
         \<and> fst (snd (archive_room env room_id tf hf jf opts fs)) (archive_folder_name self @ ''.tgz'')
             = Some (RegFile (fst (tar_gz env (archive_folder_name self)
                 (fst (snd (archive_with env self opts tf hf jf
                              (fst (setup_with env self opts hf fs)))) (archive_folder_name self)))))
         \<and> (\<forall>fs'. tear_down_folder (archive_folder_name self) fs' (archive_folder_name self @ ''.tgz'')
                    = fs' (archive_folder_name self @ ''.tgz''))"
proof -
  obtain tr0 where g': "gather_room_information env room_id = (tr0, Inr self)"
    using g by (cases "gather_room_information env room_id") simp
  obtain fs1 where su': "setup_with env self opts hf fs = (fs1, None)"
    using su by (cases "setup_with env self opts hf fs") simp
  obtain tr fs2 where ar': "archive_with env self opts tf hf jf fs1 = (tr, fs2, None)"
    using ar su' by (cases "archive_with env self opts tf hf jf fs1") auto
  have st: "\<not> isdir fs2 (archive_folder_name self @ ''.tgz'')"
    using started su' ar' by simp
  have fl: "snd (compress_folder env (archive_folder_name self) fs2) = Some e"
    using failed su' ar' by simp
  define fs3 where "fs3 = fs2(archive_folder_name self @ ''.tgz''
                    \<mapsto> RegFile (fst (tar_gz env (archive_folder_name self)
                                      (fs2 (archive_folder_name self)))))"
  have co: "compress_folder env (archive_folder_name self) fs2 = (fs3, Some e)"
    using fl compress_folder_started[OF st, of env] by (simp add: fs3_def)
  have body: "try_body env self opts tf hf jf fs1 = (tr, fs3, Some e)"
    using ar' co by (simp add: try_body_def)
  have "isdir fs1 (archive_folder_name self)"
    using setup_with_created[OF su] su' by simp
  then have "isdir fs3 (archive_folder_name self)"
    using isdir_try_body[OF body] by simp
  then have gone: "tear_down_folder (archive_folder_name self) fs3 (archive_folder_name self) = None"
    by (rule tear_down_folder_removes)
  have keep: "tear_down_folder (archive_folder_name self) fs' (archive_folder_name self @ ''.tgz'')
                = fs' (archive_folder_name self @ ''.tgz'')" for fs'
    by (rule tear_down_folder_frame) simp
  have "archive_room env room_id tf hf jf opts fs
           = (tr0 @ tr, tear_down_folder (archive_folder_name self) fs3, Inl e)"
    using g' su' body by (simp add: archive_room_def)
  then show ?thesis
    using gone keep su' ar' by (simp add: fs3_def)
qed

text \<open>A run in which writing the archive file stops after some bytes.\<close>

theorem compress_failure_leaves_archive_file_witness:
  "snd (gather_room_information env_tar_fails ''r1'') = Inr (demo_archiver one_attachment)
   \<and> snd (setup_with env_tar_fails (demo_archiver one_attachment) no_options True Map.empty) = None
   \<and> snd (snd (archive_with env_tar_fails (demo_archiver one_attachment) no_options True True True
                 (fst (setup_with env_tar_fails (demo_archiver one_attachment) no_options True
                         Map.empty)))) = None
   \<and> \<not> isdir (fst (snd (archive_with env_tar_fails (demo_archiver one_attachment) no_options True
                          True True
                          (fst (setup_with env_tar_fails (demo_archiver one_attachment) no_options
                                  True Map.empty)))))
              (archive_folder_name (demo_archiver one_attachment) @ ''.tgz'')
   \<and> snd (compress_folder env_tar_fails (archive_folder_name (demo_archiver one_attachment))
            (fst (snd (archive_with env_tar_fails (demo_archiver one_attachment) no_options True
                         True True
                         (fst (setup_with env_tar_fails (demo_archiver one_attachment) no_options
                                 True Map.empty))))))
       = Some (OtherError ''disk full'')
   \<and> snd (snd (archive_room env_tar_fails ''r1'' True True True no_options Map.empty))
       = Inl (OtherError ''disk full'')
   \<and> fst (snd (archive_room env_tar_fails ''r1'' True True True no_options Map.empty)) ''Team_r1''
       = None
   \<and> fst (snd (archive_room env_tar_fails ''r1'' True True True no_options Map.empty))
         ''Team_r1.tgz'' = Some (RegFile ''partial'')"
proof -
  have g: "snd (gather_room_information env_tar_fails ''r1'') = Inr (demo_archiver one_attachment)"
    by code_simp
  have su: "snd (setup_with env_tar_fails (demo_archiver one_attachment) no_options True Map.empty)
              = None"
    by code_simp
  have ar: "snd (snd (archive_with env_tar_fails (demo_archiver one_attachment) no_options True True
                 True (fst (setup_with env_tar_fails (demo_archiver one_attachment) no_options True
                         Map.empty)))) = None"
    by code_simp
  have started: "\<not> isdir (fst (snd (archive_with env_tar_fails (demo_archiver one_attachment)
                          no_options True True True
                          (fst (setup_with env_tar_fails (demo_archiver one_attachment) no_options
                                  True Map.empty)))))
              (archive_folder_name (demo_archiver one_attachment) @ ''.tgz'')"
    by code_simp
  have failed: "snd (compress_folder env_tar_fails (archive_folder_name (demo_archiver one_attachment))
            (fst (snd (archive_with env_tar_fails (demo_archiver one_attachment) no_options True
                         True True
                         (fst (setup_with env_tar_fails (demo_archiver one_attachment) no_options
                                 True Map.empty))))))
       = Some (OtherError ''disk full'')"
    by code_simp
  have n: "archive_folder_name (demo_archiver one_attachment) = ''Team_r1''"
    by (simp add: demo_archiver_def)
  have t: "tar_gz env_tar_fails = (\<lambda>n d. (''partial'', Some (OtherError ''disk full'')))"
    by (simp add: env_tar_fails_def)
  from compress_failure_leaves_archive_file[OF g su ar started failed]
  have "snd (snd (archive_room env_tar_fails ''r1'' True True True no_options Map.empty))
          = Inl (OtherError ''disk full'')
        \<and> fst (snd (archive_room env_tar_fails ''r1'' True True True no_options Map.empty))
            ''Team_r1'' = None
        \<and> fst (snd (archive_room env_tar_fails ''r1'' True True True no_options Map.empty))
            ''Team_r1.tgz'' = Some (RegFile ''partial'')"
    by (simp add: n t)
  then show ?thesis
    using g su ar started failed by simp
qed


end
